theory Spec2Isabelle
  imports Main "HOL-Library.Word" "HOL-Library.Product_Lexorder"
begin

section \<open>Data model of the block store\<close>

text \<open>
  An object id is the pair (inode, stripe) of two unsigned 64-bit numbers, ordered
  lexicographically; an (object, version) key adds a 64-bit version, again ordered
  lexicographically. Both orders are the ones of \<open>operator <\<close> in the block store's
  header, which is the lexicographic order on pairs.
\<close>

type_synonym u64 = "64 word"
type_synonym object_id = "u64 \<times> u64"
type_synonym obj_ver_id = "object_id \<times> u64"

definition inode :: "object_id \<Rightarrow> u64" where
  "inode o_id = fst o_id"

definition stripe :: "object_id \<Rightarrow> u64" where
  "stripe o_id = snd o_id"

definition UINT64_MAX :: u64 where
  "UINT64_MAX = - 1"

text \<open>
  The reasons an operation can be parked for (\<open>PRIV(op)->wait_for\<close>); \<open>NO_WAIT\<close> is
  the value 0, \<open>WAIT_OTHER\<close> stands for any value that \<open>check_wait\<close> does not know.
\<close>

datatype wait_reason =
  NO_WAIT | WAIT_SQE | WAIT_JOURNAL | WAIT_JOURNAL_BUFFER | WAIT_FREE | WAIT_OTHER nat

text \<open>
  What C++ leaves undefined or answers with an exception is a value of \<open>bs_error\<close>;
  \<open>LOOPS_FOREVER\<close> is the answer of a loop whose counter would not advance.
\<close>

datatype bs_error =
  UB_DIVISION_BY_ZERO | UB_OUT_OF_BOUNDS | UB_USE_AFTER_FREE | EX_RUNTIME_ERROR string |
  LOOPS_FOREVER

text \<open>The in-memory bookkeeping of one journal sector.\<close>

record journal_sector_info =
  usage_count :: "32 word"
  flush_count :: "32 word"
  dirty :: bool


section \<open>The sync path (class blockstore, blockstore_sync.cpp)\<close>

definition SYNC_HAS_SMALL :: nat where "SYNC_HAS_SMALL = 1"
definition SYNC_HAS_BIG :: nat where "SYNC_HAS_BIG = 2"
definition SYNC_DATA_SYNC_SENT :: nat where "SYNC_DATA_SYNC_SENT = 3"
definition SYNC_DATA_SYNC_DONE :: nat where "SYNC_DATA_SYNC_DONE = 4"
definition SYNC_JOURNAL_SYNC_SENT :: nat where "SYNC_JOURNAL_SYNC_SENT = 5"
definition SYNC_DONE :: nat where "SYNC_DONE = 6"

lemmas sync_state_defs =
  SYNC_HAS_SMALL_def SYNC_HAS_BIG_def SYNC_DATA_SYNC_SENT_def SYNC_DATA_SYNC_DONE_def
  SYNC_JOURNAL_SYNC_SENT_def SYNC_DONE_def

text \<open>
  The states of a dirty entry that the sync path assigns; \<open>ST_VALUE n\<close> is any other
  value of the state word, \<open>ST_VALUE 0\<close> the one of a value-initialised entry.
\<close>

datatype dirty_state = ST_D_SYNCED | ST_D_META_SYNCED | ST_J_SYNCED | ST_VALUE nat

record sync_dirty_entry =
  state :: dirty_state
  location :: u64

text \<open>
  A SYNC operation, with the fields the sync path reads and writes. \<open>in_progress_ptr\<close>
  is the operation's own node of \<open>in_progress_syncs\<close>; the model identifies a node with
  the address of the operation it holds (every operation is inserted once).
\<close>

record blockstore_operation =
  sync_state :: nat
  prev_sync_count :: int
  sync_big_writes :: "obj_ver_id list"
  sync_small_writes :: "obj_ver_id list"
  pending_ops :: int
  min_used_journal_sector :: nat
  max_used_journal_sector :: nat
  retval :: int
  wait_for :: wait_reason

record journal_t =
  sector_count :: nat
  cur_sector :: nat
  sector_info :: "journal_sector_info list"

text \<open>What the sync path puts on the ring, with the address of the operation it is for.\<close>

datatype sqe_request = FSYNC_JOURNAL nat | FSYNC_DATA nat | JOURNAL_SECTOR_WRITE nat

text \<open>
  The engine as the sync path sees it. Operations live on the heap: \<open>ops\<close> maps an
  address to the operation stored there, and \<open>in_progress_syncs\<close> is a list of
  addresses. \<open>sqes_left\<close> is the number of free submission slots of the ring,
  \<open>submitted\<close> the requests prepared so far, and \<open>called_back\<close> the client callbacks
  invoked so far, each with the address of its operation and the retval it carried.
\<close>

record blockstore =
  unsynced_big_writes :: "obj_ver_id list"
  unsynced_small_writes :: "obj_ver_id list"
  dirty_db :: "obj_ver_id \<rightharpoonup> sync_dirty_entry"
  in_progress_syncs :: "nat list"
  ops :: "nat \<Rightarrow> blockstore_operation"
  journal :: journal_t
  sqes_left :: nat
  submitted :: "sqe_request list"
  called_back :: "(nat \<times> int) list"

text \<open>
  The journal helpers that the second step of a sync calls are not among the sources.
  They are parameters: \<open>check_available st p n\<close> answers whether the journal has room
  for \<open>n\<close> entries of the operation at \<open>p\<close> and how many sectors they need (it may park
  the operation); \<open>prefill_single_journal_entry\<close> reserves one entry and may advance
  \<open>cur_sector\<close>; \<open>prepare_journal_sector_write\<close> prepares the write of the current
  sector for the operation at \<open>p\<close>.
\<close>

record journal_env =
  check_available :: "blockstore \<Rightarrow> nat \<Rightarrow> nat \<Rightarrow> bool \<times> nat \<times> blockstore"
  prefill_single_journal_entry :: "blockstore \<Rightarrow> blockstore"
  prepare_journal_sector_write :: "nat \<Rightarrow> blockstore \<Rightarrow> blockstore"

definition update_op ::
  "nat \<Rightarrow> (blockstore_operation \<Rightarrow> blockstore_operation) \<Rightarrow> blockstore \<Rightarrow> blockstore" where
  "update_op p f st = st\<lparr>ops := (ops st)(p := f (ops st p))\<rparr>"

text \<open>
  \<open>dirty_db[k]\<close> of a \<open>std::map\<close>: an absent key is inserted with a value-initialised
  entry.
\<close>

definition dirty_db_at :: "(obj_ver_id \<rightharpoonup> sync_dirty_entry) \<Rightarrow> obj_ver_id \<Rightarrow> sync_dirty_entry" where
  "dirty_db_at db k =
     (case db k of Some e \<Rightarrow> e | None \<Rightarrow> \<lparr>state = ST_VALUE 0, location = 0\<rparr>)"

definition set_dirty_state ::
  "dirty_state \<Rightarrow> obj_ver_id \<Rightarrow> (obj_ver_id \<rightharpoonup> sync_dirty_entry) \<Rightarrow>
   (obj_ver_id \<rightharpoonup> sync_dirty_entry)" where
  "set_dirty_state s k db = db(k \<mapsto> (dirty_db_at db k)\<lparr>state := s\<rparr>)"

text \<open>The loops \<open>for (it = list.begin(); ...) dirty_db[*it].state = s\<close>.\<close>

fun set_dirty_states ::
  "dirty_state \<Rightarrow> obj_ver_id list \<Rightarrow> (obj_ver_id \<rightharpoonup> sync_dirty_entry) \<Rightarrow>
   (obj_ver_id \<rightharpoonup> sync_dirty_entry)" where
  "set_dirty_states s [] db = db"
| "set_dirty_states s (k # ks) db = set_dirty_states s ks (set_dirty_state s k db)"

subsection \<open>ack_sync\<close>

text \<open>
  The \<open>while\<close> loop of \<open>ack_sync\<close> over the syncs after the acknowledged one;
  \<open>done_syncs\<close> is the loop's counter. The node of an operation is found by the
  address of the operation, which is the node that \<open>in_progress_ptr\<close> points to as long
  as an operation is in the list once. In the source \<open>next_sync\<close> is a reference into
  the list node and is still read after the node has been erased; the model reads the
  operation that the node held.
\<close>

fun ack_next_syncs :: "nat list \<Rightarrow> int \<Rightarrow> blockstore \<Rightarrow> blockstore" where
  "ack_next_syncs [] done_syncs st = st"
| "ack_next_syncs (next_sync # rest) done_syncs st =
     (let st1 = update_op next_sync
                  (\<lambda>op. op\<lparr>prev_sync_count := prev_sync_count op - done_syncs\<rparr>) st
      in if prev_sync_count (ops st1 next_sync) = 0 \<and> sync_state (ops st1 next_sync) = SYNC_DONE
         then
           ack_next_syncs rest (done_syncs + 1)
             ((update_op next_sync (\<lambda>op. op\<lparr>retval := 0\<rparr>)
                (st1\<lparr>in_progress_syncs := remove1 next_sync (in_progress_syncs st1)\<rparr>))
              \<lparr>called_back := called_back st1 @ [(next_sync, 0)]\<rparr>)
         else ack_next_syncs rest done_syncs st1)"

definition ack_sync :: "nat \<Rightarrow> blockstore \<Rightarrow> bs_error + (int \<times> blockstore)" where
  "ack_sync p st =
     (if sync_state (ops st p) = SYNC_DONE \<and> prev_sync_count (ops st p) = 0 then
        (if p \<notin> set (in_progress_syncs st) then Inl UB_OUT_OF_BOUNDS
         else
           let st1 = ack_next_syncs (tl (dropWhile (\<lambda>q. q \<noteq> p) (in_progress_syncs st))) 1 st;
               st2 = update_op p (\<lambda>op. op\<lparr>retval := 0\<rparr>)
                       (st1\<lparr>in_progress_syncs := remove1 p (in_progress_syncs st1)\<rparr>)
           in Inr (1, st2\<lparr>called_back := called_back st2 @ [(p, 0)]\<rparr>))
      else Inr (0, st))"

subsection \<open>continue_sync\<close>

text \<open>
  Modelled from the spec: \<open>BS_SUBMIT_GET_SQE\<close> is a macro of the absent header. It
  takes a submission slot from the ring; when the ring is full it parks the operation
  with \<open>WAIT_SQE\<close> and makes the calling function return 0.
\<close>

definition get_sqe :: "nat \<Rightarrow> blockstore \<Rightarrow> blockstore option" where
  "get_sqe p st =
     (if sqes_left st = 0 then None else Some (st\<lparr>sqes_left := sqes_left st - 1\<rparr>))"

definition park_wait_sqe :: "nat \<Rightarrow> blockstore \<Rightarrow> blockstore" where
  "park_wait_sqe p st = update_op p (\<lambda>op. op\<lparr>wait_for := WAIT_SQE\<rparr>) st"

text \<open>
  The loop that takes \<open>n\<close> slots one after the other: when the ring runs out, the slots
  taken so far stay taken and the operation is parked.
\<close>

fun get_sqes :: "nat \<Rightarrow> nat \<Rightarrow> blockstore \<Rightarrow> blockstore option" where
  "get_sqes p 0 st = Some st"
| "get_sqes p (Suc n) st =
     (case get_sqe p st of None \<Rightarrow> None | Some st1 \<Rightarrow> get_sqes p n st1)"

text \<open>
  The loop over the captured big writes in the second step. \<open>s\<close> counts the sector
  writes prepared, \<open>cur\<close> is the local \<open>cur_sector\<close> (\<open>None\<close> for -1), \<open>nsqe\<close> the
  length of the local array of slots. The contents of the journal entries (object,
  version, location, CRC) are not part of the model; reading \<open>dirty_db[*it].location\<close>
  inserts the key when it is absent.
\<close>

fun journal_big_writes ::
  "journal_env \<Rightarrow> nat \<Rightarrow> nat \<Rightarrow> obj_ver_id list \<Rightarrow> nat \<Rightarrow> nat option \<Rightarrow> blockstore \<Rightarrow>
   bs_error + (nat \<times> blockstore)" where
  "journal_big_writes env p nsqe [] s cur st = Inr (s, st)"
| "journal_big_writes env p nsqe (w # ws) s cur st =
     (let st1 = prefill_single_journal_entry env st;
          st2 = st1\<lparr>dirty_db := (dirty_db st1)(w \<mapsto> dirty_db_at (dirty_db st1) w)\<rparr>
      in if cur \<noteq> Some (cur_sector (journal st2)) then
           (let st3 = (if cur = None
                       then update_op p (\<lambda>op. op\<lparr>min_used_journal_sector :=
                                                   1 + cur_sector (journal st2)\<rparr>) st2
                       else st2)
            in if s \<ge> nsqe then Inl UB_OUT_OF_BOUNDS
               else journal_big_writes env p nsqe ws (s + 1) (Some (cur_sector (journal st3)))
                      (prepare_journal_sector_write env p st3))
         else journal_big_writes env p nsqe ws s cur st2)"

definition continue_sync :: "journal_env \<Rightarrow> nat \<Rightarrow> blockstore \<Rightarrow> bs_error + (int \<times> blockstore)" where
  "continue_sync env p st =
     (if sync_state (ops st p) = SYNC_HAS_SMALL then
        (case get_sqe p st of
           None \<Rightarrow> Inr (0, park_wait_sqe p st)
         | Some st1 \<Rightarrow>
             Inr (1, update_op p (\<lambda>op. op\<lparr>pending_ops := 1, sync_state := SYNC_JOURNAL_SYNC_SENT\<rparr>)
                       (st1\<lparr>submitted := submitted st1 @ [FSYNC_JOURNAL p]\<rparr>)))
      else if sync_state (ops st p) = SYNC_HAS_BIG then
        (case get_sqe p st of
           None \<Rightarrow> Inr (0, park_wait_sqe p st)
         | Some st1 \<Rightarrow>
             Inr (1, update_op p (\<lambda>op. op\<lparr>pending_ops := 1, sync_state := SYNC_DATA_SYNC_SENT\<rparr>)
                       (st1\<lparr>submitted := submitted st1 @ [FSYNC_DATA p]\<rparr>)))
      else if sync_state (ops st p) = SYNC_DATA_SYNC_DONE then
        (case check_available env st p (length (sync_big_writes (ops st p))) of
           (ok, sectors_required, st1) \<Rightarrow>
             if \<not> ok then Inr (0, st1)
             else
               (case get_sqes p (sectors_required + 1) st1 of
                  None \<Rightarrow> Inr (0, park_wait_sqe p (st1\<lparr>sqes_left := 0\<rparr>))
                | Some st2 \<Rightarrow>
                    (case journal_big_writes env p (sectors_required + 1)
                            (sync_big_writes (ops st2 p)) 0 None st2 of
                       Inl e \<Rightarrow> Inl e
                     | Inr (s, st3) \<Rightarrow>
                         if s \<ge> sectors_required + 1 then Inl UB_OUT_OF_BOUNDS
                         else
                           Inr (1, update_op p
                                     (\<lambda>op. op\<lparr>max_used_journal_sector := 1 + cur_sector (journal st3),
                                              pending_ops := 1 + int s,
                                              sync_state := SYNC_JOURNAL_SYNC_SENT\<rparr>)
                                     (st3\<lparr>submitted := submitted st3 @ [FSYNC_JOURNAL p]\<rparr>)))))
      else Inr (0, st))"

subsection \<open>dequeue_sync\<close>

definition dequeue_sync :: "journal_env \<Rightarrow> nat \<Rightarrow> blockstore \<Rightarrow> bs_error + (int \<times> blockstore)" where
  "dequeue_sync env p st =
     (let st1 =
            (if sync_state (ops st p) = 0 then
               (let big = unsynced_big_writes st; small = unsynced_small_writes st;
                    op = ops st p;
                    st_swapped = (update_op p (\<lambda>op. op\<lparr>sync_big_writes := big,
                                                        sync_small_writes := small\<rparr>) st)
                                   \<lparr>unsynced_big_writes := sync_big_writes op,
                                    unsynced_small_writes := sync_small_writes op\<rparr>;
                    st_state = update_op p
                       (\<lambda>op. op\<lparr>sync_state :=
                                  (if length (sync_big_writes op) > 0 then SYNC_HAS_BIG
                                   else if length (sync_small_writes op) > 0 then SYNC_HAS_SMALL
                                   else SYNC_DONE)\<rparr>) st_swapped
                in st_state\<lparr>unsynced_big_writes := [], unsynced_small_writes := []\<rparr>)
             else st)
      in case continue_sync env p st1 of
           Inl e \<Rightarrow> Inl e
         | Inr (r, st2) \<Rightarrow>
             if r \<noteq> 0 then
               (case ack_sync p st2 of
                  Inl e \<Rightarrow> Inl e
                | Inr (done, st3) \<Rightarrow>
                    if done = 0 then
                      Inr (r, (update_op p (\<lambda>op. op\<lparr>prev_sync_count :=
                                                        int (length (in_progress_syncs st3))\<rparr>) st3)
                              \<lparr>in_progress_syncs := in_progress_syncs st3 @ [p]\<rparr>)
                    else Inr (r, st3))
             else Inr (r, st2))"

subsection \<open>handle_sync_event\<close>

text \<open>
  The loop that releases the journal sectors of a sync:
  \<open>for (s = min; s != max; s = (s + 1) % sector_count) sector_info[s-1].usage_count--\<close>.
  \<open>s\<close> is unsigned, so \<open>s - 1\<close> for \<open>s = 0\<close> is far outside the array.
\<close>

function release_journal_sectors ::
  "nat \<Rightarrow> nat \<Rightarrow> nat \<Rightarrow> journal_sector_info list \<Rightarrow> bs_error + journal_sector_info list" where
  "release_journal_sectors n max_used s info =
     (if s = max_used then Inr info
      else if s = 0 \<or> s - 1 \<ge> length info then Inl UB_OUT_OF_BOUNDS
      else if n = 0 then Inl UB_DIVISION_BY_ZERO
      else release_journal_sectors n max_used ((s + 1) mod n)
             (info[s - 1 := (info ! (s - 1))\<lparr>usage_count := usage_count (info ! (s - 1)) - 1\<rparr>]))"
  by pat_completeness auto
termination
proof (relation "measure (\<lambda>(n, max_used, s, info). if s = 0 then 0 else if s < n then n - s else n + 1)")
  show "wf (measure (\<lambda>(n, max_used, s, info). if s = 0 then 0 else if s < n then n - s else n + 1))"
    by simp
next
  fix n max_used s :: nat and info :: "journal_sector_info list"
  assume a: "\<not> (s = 0 \<or> length info \<le> s - 1)" "n \<noteq> 0"
  have lt: "(s + 1) mod n < n" using a(2) by simp
  have small: "s + 1 < n \<Longrightarrow> (s + 1) mod n = s + 1" by simp
  have wrap: "s + 1 = n \<Longrightarrow> (s + 1) mod n = 0" by simp
  show "((n, max_used, (s + 1) mod n,
          info[s - 1 := (info ! (s - 1))\<lparr>usage_count := usage_count (info ! (s - 1)) - 1\<rparr>]),
         (n, max_used, s, info))
        \<in> measure (\<lambda>(n, max_used, s, info). if s = 0 then 0 else if s < n then n - s else n + 1)"
    using a lt small wrap by (cases "s + 1 < n"; cases "s + 1 = n") auto
qed

text \<open>
  \<open>res\<close> is the result of the completed request (\<open>data->res\<close>), \<open>p\<close> the address of the
  operation it belongs to.
\<close>

definition handle_sync_event :: "int \<Rightarrow> nat \<Rightarrow> blockstore \<Rightarrow> bs_error + blockstore" where
  "handle_sync_event res p st =
     (if res < 0 then
        Inl (EX_RUNTIME_ERROR ''write operation failed. in-memory state is corrupted. AAAAAAAaaaaaaaaa!!!111'')
      else
        let st1 = update_op p (\<lambda>op. op\<lparr>pending_ops := pending_ops op - 1\<rparr>) st
        in if pending_ops (ops st1 p) = 0 then
             (case (if min_used_journal_sector (ops st1 p) > 0
                    then (case release_journal_sectors (sector_count (journal st1))
                                 (max_used_journal_sector (ops st1 p))
                                 (min_used_journal_sector (ops st1 p))
                                 (sector_info (journal st1)) of
                            Inl e \<Rightarrow> Inl e
                          | Inr info \<Rightarrow>
                              Inr (update_op p (\<lambda>op. op\<lparr>min_used_journal_sector := 0,
                                                         max_used_journal_sector := 0\<rparr>)
                                     (st1\<lparr>journal := (journal st1)\<lparr>sector_info := info\<rparr>\<rparr>)))
                    else Inr st1) of
                Inl e \<Rightarrow> Inl e
              | Inr st2 \<Rightarrow>
                  if sync_state (ops st2 p) = SYNC_DATA_SYNC_SENT then
                    (case ack_sync p
                            ((update_op p (\<lambda>op. op\<lparr>sync_state := SYNC_DATA_SYNC_DONE\<rparr>) st2)
                             \<lparr>dirty_db := set_dirty_states ST_D_SYNCED
                                            (sync_big_writes (ops st2 p)) (dirty_db st2)\<rparr>) of
                       Inl e \<Rightarrow> Inl e
                     | Inr (done, st3) \<Rightarrow> Inr st3)
                  else if sync_state (ops st2 p) = SYNC_JOURNAL_SYNC_SENT then
                    (case ack_sync p
                            ((update_op p (\<lambda>op. op\<lparr>sync_state := SYNC_DONE\<rparr>) st2)
                             \<lparr>dirty_db := set_dirty_states ST_J_SYNCED
                                            (sync_small_writes (ops st2 p))
                                            (set_dirty_states ST_D_META_SYNCED
                                               (sync_big_writes (ops st2 p)) (dirty_db st2))\<rparr>) of
                       Inl e \<Rightarrow> Inl e
                     | Inr (done, st3) \<Rightarrow> Inr st3)
                  else Inl (EX_RUNTIME_ERROR ''BUG: unexpected sync op state''))
           else Inr st1)"

subsection \<open>Concrete inputs of the sync path\<close>

text \<open>
  A journal environment with room for everything, whose entries all fit the current
  sector, and whose sector write takes a reference on the current sector.
\<close>

definition example_journal_env :: journal_env where
  "example_journal_env =
     \<lparr>check_available = (\<lambda>st p n. (True, 1, st)),
      prefill_single_journal_entry = (\<lambda>st. st),
      prepare_journal_sector_write =
        (\<lambda>p st. st\<lparr>submitted := submitted st @ [JOURNAL_SECTOR_WRITE p],
                    journal := (journal st)\<lparr>sector_info :=
                      (sector_info (journal st))
                        [cur_sector (journal st) :=
                           (sector_info (journal st) ! cur_sector (journal st))
                             \<lparr>usage_count :=
                                usage_count (sector_info (journal st) ! cur_sector (journal st)) + 1\<rparr>]\<rparr>\<rparr>)\<rparr>"

definition new_sync_op :: blockstore_operation where
  "new_sync_op =
     \<lparr>sync_state = 0, prev_sync_count = 0, sync_big_writes = [], sync_small_writes = [],
      pending_ops = 0, min_used_journal_sector = 0, max_used_journal_sector = 0,
      retval = 0, wait_for = NO_WAIT\<rparr>"

definition free_sector :: journal_sector_info where
  "free_sector = \<lparr>usage_count = 0, flush_count = 0, dirty = False\<rparr>"

definition example_blockstore :: blockstore where
  "example_blockstore =
     \<lparr>unsynced_big_writes = [], unsynced_small_writes = [], dirty_db = Map.empty,
      in_progress_syncs = [], ops = (\<lambda>p. new_sync_op),
      journal = \<lparr>sector_count = 4, cur_sector = 0,
                 sector_info = [free_sector, free_sector, free_sector, free_sector]\<rparr>,
      sqes_left = 16, submitted = [], called_back = []\<rparr>"

text \<open>
  Two syncs in flight. Sync 1 captures one small write and is dispatched; a second small
  write arrives and sync 2 captures it. The journal fsync of sync 2 completes first, then
  the one of sync 1. The result is the engine after each of the two completions.
\<close>

definition two_syncs_in_flight :: "bs_error + (blockstore \<times> blockstore)" where
  "two_syncs_in_flight =
     (case dequeue_sync example_journal_env 1
             (example_blockstore\<lparr>unsynced_small_writes := [((1, 0), 1)]\<rparr>) of
        Inl e \<Rightarrow> Inl e
      | Inr (r1, st1) \<Rightarrow>
     (case dequeue_sync example_journal_env 2 (st1\<lparr>unsynced_small_writes := [((2, 0), 1)]\<rparr>) of
        Inl e \<Rightarrow> Inl e
      | Inr (r2, st2) \<Rightarrow>
     (case handle_sync_event 0 2 st2 of
        Inl e \<Rightarrow> Inl e
      | Inr st3 \<Rightarrow>
     (case handle_sync_event 0 1 st3 of
        Inl e \<Rightarrow> Inl e
      | Inr st4 \<Rightarrow> Inr (st3, st4)))))"

text \<open>
  A sync whose journal fsync is in flight (one request pending) after it has written the
  journal entry of one big write into journal sector 0: both ends of its sector range are
  1, and the sector carries the one reference of this sync.
\<close>

definition sync_with_one_journal_sector :: blockstore where
  "sync_with_one_journal_sector =
     example_blockstore
       \<lparr>ops := (ops example_blockstore)
                 (1 := new_sync_op\<lparr>sync_state := SYNC_JOURNAL_SYNC_SENT,
                                   sync_big_writes := [((1, 0), 1)], pending_ops := 1,
                                   min_used_journal_sector := 1,
                                   max_used_journal_sector := 1\<rparr>),
        in_progress_syncs := [1],
        journal := \<lparr>sector_count = 4, cur_sector = 0,
                    sector_info = [free_sector\<lparr>usage_count := 1\<rparr>, free_sector, free_sector,
                                   free_sector]\<rparr>\<rparr>"

section \<open>The engine (class blockstore_impl_t)\<close>

text \<open>
  Modelled from the spec: the opcode numbers are declared in the block store's header,
  which is not among the sources. The nine opcodes of the interface table are numbered
  consecutively from \<open>BS_OP_MIN\<close> to \<open>BS_OP_MAX\<close>.
\<close>

definition BS_OP_MIN :: nat where "BS_OP_MIN = 1"
definition BS_OP_READ :: nat where "BS_OP_READ = 1"
definition BS_OP_WRITE :: nat where "BS_OP_WRITE = 2"
definition BS_OP_WRITE_STABLE :: nat where "BS_OP_WRITE_STABLE = 3"
definition BS_OP_SYNC :: nat where "BS_OP_SYNC = 4"
definition BS_OP_STABLE :: nat where "BS_OP_STABLE = 5"
definition BS_OP_DELETE :: nat where "BS_OP_DELETE = 6"
definition BS_OP_LIST :: nat where "BS_OP_LIST = 7"
definition BS_OP_ROLLBACK :: nat where "BS_OP_ROLLBACK = 8"
definition BS_OP_SYNC_STAB_ALL :: nat where "BS_OP_SYNC_STAB_ALL = 9"
definition BS_OP_MAX :: nat where "BS_OP_MAX = 9"

lemmas bs_op_defs =
  BS_OP_MIN_def BS_OP_READ_def BS_OP_WRITE_def BS_OP_WRITE_STABLE_def BS_OP_SYNC_def
  BS_OP_STABLE_def BS_OP_DELETE_def BS_OP_LIST_def BS_OP_ROLLBACK_def
  BS_OP_SYNC_STAB_ALL_def BS_OP_MAX_def

definition EINVAL :: int where "EINVAL = 22"
definition ENOMEM :: int where "ENOMEM = 12"

text \<open>
  A completion callback is client code. The model keeps which callback an operation
  carries: one supplied by the client (identified by a number), the deleting callback
  that \<open>is_safe_to_stop\<close> gives its internal SYNC, or the wrapper that \<open>enqueue_op\<close>
  puts around the client's callback of a SYNC_STAB_ALL. Invoking a callback appends the
  operation, as it is at that moment, to the engine's \<open>fired\<close> log.
\<close>

datatype callback =
  CB_CLIENT nat | CB_DELETE_OP | CB_SYNC_STAB_ALL callback

record blockstore_op =
  opcode :: nat
  oid :: object_id
  version :: u64
  offset :: nat
  len :: nat
  buf :: "obj_ver_id list"
  retval :: int
  callback :: callback
  priv_wait_for :: wait_reason
  priv_wait_detail :: nat
  priv_op_state :: nat
  priv_pending_ops :: nat

text \<open>
  Modelled from the spec: the state of a dirty entry is the product of its kind and its
  durability; \<open>IS_DELETE\<close> and \<open>IS_STABLE\<close> are macros of the absent header and read
  the kind and the durability.
\<close>

datatype entry_kind = SMALL_WRITE | BIG_WRITE | DELETE_ENTRY

datatype durability = D_IN | D_SUBMITTED | D_WRITTEN | D_SYNCED | D_META_SYNCED | D_STABLE

record dirty_entry =
  kind :: entry_kind
  durab :: durability

definition IS_DELETE :: "dirty_entry \<Rightarrow> bool" where
  "IS_DELETE e = (kind e = DELETE_ENTRY)"

definition IS_STABLE :: "dirty_entry \<Rightarrow> bool" where
  "IS_STABLE e = (durab e = D_STABLE)"

record clean_entry =
  clean_version :: u64
  clean_location :: u64

text \<open>
  The engine. \<open>clean_db\<close> and \<open>dirty_db\<close> are ordered maps, kept as association
  lists in key order. The collaborators of the engine appear through what the engine
  reads from them: \<open>ring_space\<close> is \<open>ringloop->space_left()\<close>, \<open>flusher_active\<close> is
  \<open>flusher->is_active()\<close>, \<open>free_count\<close> is \<open>data_alloc->get_free_count()\<close>;
  \<open>ring_wakeups\<close> and \<open>trim_releases\<close> count the calls of \<open>ringloop->wakeup()\<close> and
  \<open>flusher->release_trim()\<close>. \<open>MIN_BLOCK_SIZE\<close> is a constant of the absent header and
  \<open>alloc_ok n\<close> tells whether an allocation of \<open>n\<close> list entries succeeds.
\<close>

record blockstore_impl =
  readonly :: bool
  block_size :: nat
  disk_alignment :: nat
  MIN_BLOCK_SIZE :: nat
  submit_queue :: "blockstore_op list"
  unsynced_big_writes :: "obj_ver_id list"
  unsynced_small_writes :: "obj_ver_id list"
  stop_sync_submitted :: bool
  flusher_active :: bool
  clean_db :: "(object_id \<times> clean_entry) list"
  dirty_db :: "(obj_ver_id \<times> dirty_entry) list"
  ring_space :: nat
  ring_wakeups :: nat
  trim_releases :: nat
  free_count :: nat
  journal_used_start :: nat
  journal_cur_sector :: nat
  journal_sector_count :: nat
  journal_sector_info :: "journal_sector_info list"
  alloc_ok :: "nat \<Rightarrow> bool"
  fired :: "blockstore_op list"

section \<open>enqueue_op and is_safe_to_stop\<close>

definition invoke_callback :: "blockstore_op \<Rightarrow> blockstore_impl \<Rightarrow> blockstore_impl" where
  "invoke_callback op st = st\<lparr>fired := fired st @ [op]\<rparr>"

definition is_rw_opcode :: "nat \<Rightarrow> bool" where
  "is_rw_opcode c = (c = BS_OP_READ \<or> c = BS_OP_WRITE \<or> c = BS_OP_WRITE_STABLE)"

definition is_write_opcode :: "nat \<Rightarrow> bool" where
  "is_write_opcode c = (c = BS_OP_WRITE \<or> c = BS_OP_WRITE_STABLE \<or> c = BS_OP_DELETE)"

text \<open>
  The verification at the head of \<open>enqueue_op\<close>, with the short-circuit order of the
  source: \<open>len % disk_alignment\<close> is evaluated only for a READ, WRITE or WRITE_STABLE
  in the valid opcode range whose offset and length fit the block.
\<close>

definition reaches_alignment_check :: "blockstore_impl \<Rightarrow> blockstore_op \<Rightarrow> bool" where
  "reaches_alignment_check st op =
     (\<not> (opcode op < BS_OP_MIN \<or> opcode op > BS_OP_MAX) \<and> is_rw_opcode (opcode op) \<and>
      \<not> offset op \<ge> block_size st \<and> \<not> len op > block_size st - offset op)"

definition verification_failed :: "blockstore_impl \<Rightarrow> blockstore_op \<Rightarrow> bool" where
  "verification_failed st op =
     (opcode op < BS_OP_MIN \<or> opcode op > BS_OP_MAX \<or>
      (is_rw_opcode (opcode op) \<and>
         (offset op \<ge> block_size st \<or>
          len op > block_size st - offset op \<or>
          len op mod disk_alignment st \<noteq> 0)) \<or>
      (readonly st \<and> opcode op \<noteq> BS_OP_READ \<and> opcode op \<noteq> BS_OP_LIST))"

text \<open>
  \<open>enqueue_write\<close> belongs to the write path, which is not among the sources; it is a
  parameter that answers whether the write may be queued and returns the operation and
  the engine as it leaves them.
\<close>

type_synonym enqueue_write_fn =
  "blockstore_impl \<Rightarrow> blockstore_op \<Rightarrow> bool \<times> blockstore_op \<times> blockstore_impl"

definition enqueue_op ::
  "enqueue_write_fn \<Rightarrow> blockstore_op \<Rightarrow> blockstore_impl \<Rightarrow> bs_error + blockstore_impl" where
  "enqueue_op enqueue_write op st =
     (if reaches_alignment_check st op \<and> disk_alignment st = 0 then Inl UB_DIVISION_BY_ZERO
      else if verification_failed st op then
        Inr (invoke_callback (op\<lparr>retval := - EINVAL\<rparr>) st)
      else
        let op1 = (if opcode op = BS_OP_SYNC_STAB_ALL
                   then op\<lparr>opcode := BS_OP_SYNC, callback := CB_SYNC_STAB_ALL (callback op)\<rparr>
                   else op)
        in if is_write_opcode (opcode op1) then
             (case enqueue_write st op1 of
                (ok, op2, st2) \<Rightarrow>
                  if \<not> ok then Inr (invoke_callback op2 st2)
                  else
                    Inr (st2\<lparr>submit_queue := submit_queue st2 @
                                 [op2\<lparr>priv_wait_for := NO_WAIT, priv_op_state := 0, priv_pending_ops := 0\<rparr>],
                              ring_wakeups := ring_wakeups st2 + 1\<rparr>))
           else
             Inr (st\<lparr>submit_queue := submit_queue st @
                         [op1\<lparr>priv_wait_for := NO_WAIT, priv_op_state := 0, priv_pending_ops := 0\<rparr>],
                      ring_wakeups := ring_wakeups st + 1\<rparr>))"

text \<open>
  \<open>is_safe_to_stop\<close> returns its answer and the engine. \<open>fresh\<close> is the operation
  object that \<open>new blockstore_op_t\<close> yields; only its opcode, buffer and callback are
  set before it is enqueued.
\<close>

definition is_safe_to_stop ::
  "enqueue_write_fn \<Rightarrow> blockstore_op \<Rightarrow> blockstore_impl \<Rightarrow> bs_error + (bool \<times> blockstore_impl)" where
  "is_safe_to_stop enqueue_write fresh st =
     (if length (submit_queue st) > 0 \<or> (\<not> readonly st \<and> flusher_active st) then
        Inr (False, st)
      else if length (unsynced_big_writes st) > 0 \<or> length (unsynced_small_writes st) > 0 then
        (if \<not> readonly st \<and> \<not> stop_sync_submitted st then
           (case enqueue_op enqueue_write
                   (fresh\<lparr>opcode := BS_OP_SYNC, buf := [], callback := CB_DELETE_OP\<rparr>) st of
              Inl e \<Rightarrow> Inl e
            | Inr st1 \<Rightarrow> Inr (False, st1\<lparr>stop_sync_submitted := True\<rparr>))
         else Inr (False, st))
      else Inr (True, st))"

text \<open>Calling \<open>is_safe_to_stop\<close> \<open>n\<close> times in a row; the answers are collected.\<close>

fun is_safe_to_stop_repeat ::
  "enqueue_write_fn \<Rightarrow> blockstore_op \<Rightarrow> nat \<Rightarrow> blockstore_impl \<Rightarrow>
   bs_error + (bool list \<times> blockstore_impl)" where
  "is_safe_to_stop_repeat ew fresh 0 st = Inr ([], st)"
| "is_safe_to_stop_repeat ew fresh (Suc n) st =
     (case is_safe_to_stop ew fresh st of
        Inl e \<Rightarrow> Inl e
      | Inr (r, st1) \<Rightarrow>
          (case is_safe_to_stop_repeat ew fresh n st1 of
             Inl e \<Rightarrow> Inl e
           | Inr (rs, st2) \<Rightarrow> Inr (r # rs, st2)))"

section \<open>Reading the metadata device (disk_tool_t::process_meta)\<close>

record blockstore_meta_header_v1_t =
  zero :: u64
  magic :: u64
  hdr_version :: nat
  hdr_meta_block_size :: nat
  hdr_data_block_size :: nat
  hdr_bitmap_granularity :: nat

text \<open>
  Modelled from the spec: \<open>clean_disk_entry\<close> is declared in an absent header. On disk
  a record holds the object id (two u64) and the version (u64); the bitmaps follow it.
\<close>

definition sizeof_clean_disk_entry :: nat where
  "sizeof_clean_disk_entry = 24"

text \<open>
  What surrounds the tool: the constants of the absent headers, whether the device can
  be opened, the header that the first bytes of the metadata area read as, and the inode
  field of the record that stands at a byte offset of the device file.
\<close>

record meta_device =
  DIRECT_IO_ALIGNMENT :: nat
  BLOCKSTORE_META_MAGIC_V1 :: u64
  BLOCKSTORE_META_VERSION_V1 :: nat
  open_succeeds :: bool
  header_on_device :: blockstore_meta_header_v1_t
  inode_on_device :: "nat \<Rightarrow> u64"

record dsk_t =
  meta_block_size :: nat
  meta_len :: nat
  meta_offset :: nat
  bitmap_granularity :: nat
  clean_entry_bitmap_size :: nat
  clean_entry_size :: nat
  meta_fd_open :: bool

text \<open>
  The calls of the two callbacks: \<open>hdr_fn\<close> with the header or NULL, and \<open>record_fn\<close>
  with the block number, the record (given by its byte offset in the device file) and
  whether a bitmap is passed.
\<close>

datatype meta_call =
  HDR_FN "blockstore_meta_header_v1_t option" | RECORD_FN nat nat bool

text \<open>
  The tool: its disk parameters, the member \<open>meta_pos\<close>, the position of the file
  descriptor (\<open>lseek64\<close> sets it, \<open>read_blocking\<close> advances it by what it reads) and
  the callback calls made so far.
\<close>

record disk_tool_t =
  dsk :: dsk_t
  meta_pos :: nat
  file_pos :: nat
  calls :: "meta_call list"

text \<open>
  The innermost loop of the layout with a superblock:
  \<open>for (ioff = 0; ioff <= meta_block_size - clean_entry_size; ioff += clean_entry_size, block_num++)\<close>.
  \<open>base\<close> is the offset in the device file of the metadata block in the buffer.
\<close>

function block_records_v1 ::
  "meta_device \<Rightarrow> nat \<Rightarrow> nat \<Rightarrow> nat \<Rightarrow> nat \<Rightarrow> nat \<Rightarrow> meta_call list \<Rightarrow> nat \<times> meta_call list" where
  "block_records_v1 dev mbs ces base ioff block_num cs =
     (if 0 < ces \<and> ioff \<le> mbs - ces then
        block_records_v1 dev mbs ces base (ioff + ces) (block_num + 1)
          (if inode_on_device dev (base + ioff) \<noteq> 0
           then cs @ [RECORD_FN block_num (base + ioff) True] else cs)
      else (block_num, cs))"
  by pat_completeness auto
termination
  by (relation "measure (\<lambda>(dev, mbs, ces, base, ioff, block_num, cs). Suc (mbs - ces) - ioff)") auto

text \<open>
  The innermost loop of the legacy layout:
  \<open>for (ioff = 0; ioff < meta_block_size - clean_entry_size; ioff += clean_entry_size, block_num++)\<close>.
\<close>

function block_records_legacy ::
  "meta_device \<Rightarrow> nat \<Rightarrow> nat \<Rightarrow> nat \<Rightarrow> nat \<Rightarrow> nat \<Rightarrow> meta_call list \<Rightarrow> nat \<times> meta_call list" where
  "block_records_legacy dev mbs ces base ioff block_num cs =
     (if 0 < ces \<and> ioff < mbs - ces then
        block_records_legacy dev mbs ces base (ioff + ces) (block_num + 1)
          (if inode_on_device dev (base + ioff) \<noteq> 0
           then cs @ [RECORD_FN block_num (base + ioff) False] else cs)
      else (block_num, cs))"
  by pat_completeness auto
termination
  by (relation "measure (\<lambda>(dev, mbs, ces, base, ioff, block_num, cs). (mbs - ces) - ioff)") auto

text \<open>
  The loop over the metadata blocks of one read,
  \<open>for (blk = 0; blk < read_len; blk += meta_block_size)\<close>; \<open>read_start\<close> is the file
  position the read started at. The bound \<open>meta_block_size - clean_entry_size\<close> is
  unsigned: with a record larger than the block it wraps around and the loop leaves the
  buffer, as does a block that reaches past what was read.
\<close>

function buffer_records ::
  "bool \<Rightarrow> meta_device \<Rightarrow> nat \<Rightarrow> nat \<Rightarrow> nat \<Rightarrow> nat \<Rightarrow> nat \<Rightarrow> nat \<Rightarrow> meta_call list \<Rightarrow>
   bs_error + (nat \<times> meta_call list)" where
  "buffer_records legacy dev mbs ces read_start read_len blk block_num cs =
     (if blk < read_len then
        (if mbs = 0 then Inl LOOPS_FOREVER
         else if ces > mbs \<or> blk + mbs > read_len then Inl UB_OUT_OF_BOUNDS
         else
           (case (if legacy then block_records_legacy dev mbs ces (read_start + blk) 0 block_num cs
                  else block_records_v1 dev mbs ces (read_start + blk) 0 block_num cs) of
              (block_num1, cs1) \<Rightarrow>
                buffer_records legacy dev mbs ces read_start read_len (blk + mbs) block_num1 cs1))
      else Inr (block_num, cs))"
  by pat_completeness auto
termination
  by (relation "measure (\<lambda>(legacy, dev, mbs, ces, read_start, read_len, blk, block_num, cs).
                          read_len - blk)") auto

text \<open>
  The loop \<open>while (meta_pos < dsk.meta_len)\<close> of either layout. It returns the final
  \<open>meta_pos\<close>, the final file position and the callback calls.
\<close>

function read_meta_records ::
  "bool \<Rightarrow> meta_device \<Rightarrow> nat \<Rightarrow> nat \<Rightarrow> nat \<Rightarrow> nat \<Rightarrow> nat \<Rightarrow> nat \<Rightarrow> nat \<Rightarrow> meta_call list \<Rightarrow>
   bs_error + (nat \<times> nat \<times> meta_call list)" where
  "read_meta_records legacy dev mbs ces buf_size mlen mpos fpos block_num cs =
     (if mpos < mlen then
        (let read_len = (if buf_size < mlen - mpos then buf_size else mlen - mpos)
         in if read_len = 0 then Inl LOOPS_FOREVER
            else
              (case buffer_records legacy dev mbs ces fpos read_len 0 block_num cs of
                 Inl e \<Rightarrow> Inl e
               | Inr (block_num1, cs1) \<Rightarrow>
                   read_meta_records legacy dev mbs ces buf_size mlen (mpos + read_len)
                     (fpos + read_len) block_num1 cs1))
      else Inr (mpos, fpos, cs))"
  by pat_completeness auto
termination
  by (relation "measure (\<lambda>(legacy, dev, mbs, ces, buf_size, mlen, mpos, fpos, block_num, cs).
                          mlen - mpos)") (auto split: if_splits)

text \<open>
  \<open>process_meta\<close>. \<open>buf_size\<close> is an \<open>int\<close> in the source; the model takes the block
  sizes to be small enough for it. The messages printed to \<open>stderr\<close> are left out.
  When the block size of the superblock differs from the configured one and does not
  divide \<open>buf_size\<close>, the source frees the buffer that holds the superblock and reads
  \<open>hdr\<close>, which still points into it, afterwards.
\<close>

definition initial_buf_size :: "nat \<Rightarrow> nat \<Rightarrow> nat" where
  "initial_buf_size mbs mlen =
     (let b = (if (1024 * 1024) mod mbs \<noteq> 0 then 8 * mbs else 1024 * 1024)
      in if b > mlen then mlen else b)"

definition process_meta :: "meta_device \<Rightarrow> disk_tool_t \<Rightarrow> bs_error + (int \<times> disk_tool_t)" where
  "process_meta dev t =
     (if DIRECT_IO_ALIGNMENT dev = 0 then Inl UB_DIVISION_BY_ZERO
      else if meta_block_size (dsk t) mod DIRECT_IO_ALIGNMENT dev \<noteq> 0 then Inr (1, t)
      else if \<not> open_succeeds dev then Inr (1, t)
      else if meta_block_size (dsk t) = 0 then Inl UB_DIVISION_BY_ZERO
      else
        let buf_size = initial_buf_size (meta_block_size (dsk t)) (meta_len (dsk t));
            t1 = t\<lparr>dsk := (dsk t)\<lparr>meta_fd_open := True\<rparr>,
                   file_pos := meta_offset (dsk t) + buf_size\<rparr>;
            hdr = header_on_device dev
        in if zero hdr = 0 \<and> magic hdr = BLOCKSTORE_META_MAGIC_V1 dev \<and>
              hdr_version hdr = BLOCKSTORE_META_VERSION_V1 dev
           then
             (if hdr_meta_block_size hdr \<noteq> meta_block_size (dsk t1) \<and> hdr_meta_block_size hdr = 0
              then Inl UB_DIVISION_BY_ZERO
              else if hdr_meta_block_size hdr \<noteq> meta_block_size (dsk t1) \<and>
                      buf_size mod hdr_meta_block_size hdr \<noteq> 0
              then Inl UB_USE_AFTER_FREE
              else if hdr_bitmap_granularity hdr = 0 then Inl UB_DIVISION_BY_ZERO
              else
                let mbs = hdr_meta_block_size hdr;
                    bm = hdr_data_block_size hdr div hdr_bitmap_granularity hdr div 8;
                    ces = sizeof_clean_disk_entry + 2 * bm;
                    d2 = (dsk t1)\<lparr>meta_block_size := mbs,
                                   bitmap_granularity := hdr_bitmap_granularity hdr,
                                   clean_entry_bitmap_size := bm,
                                   clean_entry_size := ces\<rparr>
                in (case read_meta_records False dev mbs ces buf_size (meta_len d2) mbs
                          (meta_offset d2 + mbs) 0 (calls t1 @ [HDR_FN (Some hdr)]) of
                      Inl e \<Rightarrow> Inl e
                    | Inr (mpos, fpos, cs) \<Rightarrow>
                        Inr (0, t1\<lparr>dsk := d2\<lparr>meta_fd_open := False\<rparr>, meta_pos := mpos,
                                   file_pos := fpos, calls := cs\<rparr>)))
           else
             (let ces = sizeof_clean_disk_entry;
                  d2 = (dsk t1)\<lparr>clean_entry_bitmap_size := 0, clean_entry_size := ces\<rparr>
              in (case read_meta_records True dev (meta_block_size d2) ces buf_size (meta_len d2)
                        (meta_pos t1) (file_pos t1) 0 (calls t1 @ [HDR_FN None]) of
                    Inl e \<Rightarrow> Inl e
                  | Inr (mpos, fpos, cs) \<Rightarrow>
                      Inr (0, t1\<lparr>dsk := d2\<lparr>meta_fd_open := False\<rparr>, meta_pos := mpos,
                                 file_pos := fpos, calls := cs\<rparr>))))"

subsection \<open>Concrete metadata devices\<close>

text \<open>
  A metadata area of one block of 1536 bytes (three times the direct I/O alignment of
  512) at offset 0, in which every record slot holds an object, once without a superblock
  and once with one for data blocks of 128 KiB and a bitmap granularity of 4 KiB.
\<close>

definition legacy_device :: meta_device where
  "legacy_device =
     \<lparr>DIRECT_IO_ALIGNMENT = 512, BLOCKSTORE_META_MAGIC_V1 = 0x726F747341544956,
      BLOCKSTORE_META_VERSION_V1 = 1, open_succeeds = True,
      header_on_device = \<lparr>zero = 7, magic = 0, hdr_version = 0, hdr_meta_block_size = 0,
                          hdr_data_block_size = 0, hdr_bitmap_granularity = 0\<rparr>,
      inode_on_device = (\<lambda>off. 7)\<rparr>"

definition v1_device :: meta_device where
  "v1_device =
     legacy_device\<lparr>header_on_device :=
       \<lparr>zero = 0, magic = 0x726F747341544956, hdr_version = 1, hdr_meta_block_size = 1536,
        hdr_data_block_size = 131072, hdr_bitmap_granularity = 4096\<rparr>\<rparr>"

definition example_disk_tool :: "nat \<Rightarrow> disk_tool_t" where
  "example_disk_tool mlen =
     \<lparr>dsk = \<lparr>meta_block_size = 1536, meta_len = mlen, meta_offset = 0, bitmap_granularity = 0,
             clean_entry_bitmap_size = 0, clean_entry_size = 0, meta_fd_open = False\<rparr>,
      meta_pos = 0, file_pos = 0, calls = []\<rparr>"

section \<open>LIST (blockstore_impl_t::process_list)\<close>

text \<open>
  The binary search of \<open>replace_stable\<close> in \<open>list[search_start .. search_end)\<close>; it
  returns whether the object was found and the list, with the version of the found entry
  overwritten. Its callers pass bounds within the list.
\<close>

function replace_stable ::
  "object_id \<Rightarrow> u64 \<Rightarrow> nat \<Rightarrow> nat \<Rightarrow> obj_ver_id list \<Rightarrow> bool \<times> obj_ver_id list" where
  "replace_stable oid' version' search_start search_end list =
     (if search_start < search_end then
        (let pos = search_start + (search_end - search_start) div 2
         in if oid' < fst (list ! pos) then replace_stable oid' version' search_start pos list
            else if fst (list ! pos) < oid' then replace_stable oid' version' (pos + 1) search_end list
            else (True, list[pos := (fst (list ! pos), version')]))
      else (False, list))"
  by pat_completeness auto
termination
  by (relation "measure (\<lambda>(oid', version', search_start, search_end, list). search_end - search_start)")
     auto

declare replace_stable.simps [simp del]

text \<open>
  The arguments of a LIST travel in the fields of the operation: the placement group in
  \<open>offset\<close>, the number of placement groups in \<open>len\<close>, the stripe size in
  \<open>oid.stripe\<close> and the inode range in \<open>oid.inode\<close> and \<open>version\<close>.
\<close>

definition list_pg :: "blockstore_op \<Rightarrow> nat" where "list_pg op = offset op"
definition pg_count :: "blockstore_op \<Rightarrow> nat" where "pg_count op = len op"
definition pg_stripe_size :: "blockstore_op \<Rightarrow> u64" where "pg_stripe_size op = stripe (oid op)"
definition min_inode :: "blockstore_op \<Rightarrow> u64" where "min_inode op = inode (oid op)"
definition max_inode :: "blockstore_op \<Rightarrow> u64" where "max_inode op = version op"

definition pg_check_failed :: "blockstore_impl \<Rightarrow> blockstore_op \<Rightarrow> bool" where
  "pg_check_failed st op =
     (pg_count op \<noteq> 0 \<and>
      (unat (pg_stripe_size op) < MIN_BLOCK_SIZE st \<or> list_pg op \<ge> pg_count op))"

text \<open>
  The placement-group test of both loops,
  \<open>!pg_count || ((inode + stripe / pg_stripe_size) % pg_count) == list_pg\<close>, in
  unsigned 64-bit arithmetic.
\<close>

definition pg_matches :: "blockstore_op \<Rightarrow> object_id \<Rightarrow> bool" where
  "pg_matches op k =
     (pg_count op = 0 \<or>
      ((unat (inode k) + unat (stripe k) div unat (pg_stripe_size op)) mod 2 ^ 64) mod pg_count op
        = list_pg op)"

definition inode_range_given :: "blockstore_op \<Rightarrow> bool" where
  "inode_range_given op = ((min_inode op \<noteq> 0 \<or> max_inode op \<noteq> 0) \<and> min_inode op \<le> max_inode op)"

text \<open>
  The entries of an ordered map from \<open>lower_bound(lo)\<close> up to \<open>upper_bound(hi)\<close>, in
  iteration order.
\<close>

definition map_range :: "'k::linorder \<Rightarrow> 'k \<Rightarrow> ('k \<times> 'v) list \<Rightarrow> ('k \<times> 'v) list" where
  "map_range lo hi m = takeWhile (\<lambda>e. fst e \<le> hi) (dropWhile (\<lambda>e. fst e < lo) m)"

definition clean_range :: "blockstore_impl \<Rightarrow> blockstore_op \<Rightarrow> (object_id \<times> clean_entry) list" where
  "clean_range st op =
     (if inode_range_given op
      then map_range (min_inode op, 0) (max_inode op, UINT64_MAX) (clean_db st)
      else clean_db st)"

definition dirty_range :: "blockstore_impl \<Rightarrow> blockstore_op \<Rightarrow> (obj_ver_id \<times> dirty_entry) list" where
  "dirty_range st op =
     (if inode_range_given op
      then map_range ((min_inode op, 0), 0) ((max_inode op, UINT64_MAX), UINT64_MAX) (dirty_db st)
      else dirty_db st)"

text \<open>
  Appending to a growing array: \<open>if (count >= alloc) { alloc += 32768; realloc ... }\<close>.
  The result is the array with its allocated size, or \<open>None\<close> when the reallocation
  fails.
\<close>

definition push_entry ::
  "(nat \<Rightarrow> bool) \<Rightarrow> obj_ver_id \<Rightarrow> obj_ver_id list \<Rightarrow> nat \<Rightarrow> (obj_ver_id list \<times> nat) option" where
  "push_entry ok e arr alloc =
     (if length arr \<ge> alloc then
        (if ok (alloc + 32768) then Some (arr @ [e], alloc + 32768) else None)
      else Some (arr @ [e], alloc))"

text \<open>The loop over \<open>clean_db\<close>.\<close>

fun copy_clean_entries ::
  "(nat \<Rightarrow> bool) \<Rightarrow> blockstore_op \<Rightarrow> (object_id \<times> clean_entry) list \<Rightarrow> obj_ver_id list \<Rightarrow> nat \<Rightarrow>
   (obj_ver_id list \<times> nat) option" where
  "copy_clean_entries ok op [] stable_list stable_alloc = Some (stable_list, stable_alloc)"
| "copy_clean_entries ok op (c # rest) stable_list stable_alloc =
     (if pg_matches op (fst c) then
        (case push_entry ok (fst c, clean_version (snd c)) stable_list stable_alloc of
           None \<Rightarrow> None
         | Some (stable_list1, alloc1) \<Rightarrow> copy_clean_entries ok op rest stable_list1 alloc1)
      else copy_clean_entries ok op rest stable_list stable_alloc)"

text \<open>
  One round of the loop over \<open>dirty_db\<close>. The state of the loop is the stable array
  with its allocated size and the unstable array with its allocated size;
  \<open>clean_stable_count\<close> is the number of entries that came from \<open>clean_db\<close>.
\<close>

type_synonym list_arrays = "obj_ver_id list \<times> nat \<times> obj_ver_id list \<times> nat"

definition merge_dirty_entry ::
  "(nat \<Rightarrow> bool) \<Rightarrow> blockstore_op \<Rightarrow> nat \<Rightarrow> obj_ver_id \<times> dirty_entry \<Rightarrow> list_arrays \<Rightarrow>
   list_arrays option" where
  "merge_dirty_entry ok op clean_stable_count d arrays =
     (case arrays of (stable_list, stable_alloc, unstable_list, unstable_alloc) \<Rightarrow>
        if pg_matches op (fst (fst d)) then
          (if IS_DELETE (snd d) then
             (case replace_stable (fst (fst d)) 0 0 clean_stable_count stable_list of
                (found, stable_list1) \<Rightarrow>
                  if \<not> found
                  then Some (snd (replace_stable (fst (fst d)) 0 clean_stable_count
                                    (length stable_list1) stable_list1),
                             stable_alloc, unstable_list, unstable_alloc)
                  else Some (stable_list1, stable_alloc, unstable_list, unstable_alloc))
           else if IS_STABLE (snd d) then
             (case replace_stable (fst (fst d)) (snd (fst d)) 0 clean_stable_count stable_list of
                (found, stable_list1) \<Rightarrow>
                  if \<not> found then
                    (if length stable_list1 > 0 \<and> fst (stable_list1 ! (length stable_list1 - 1)) = fst (fst d)
                     then Some (stable_list1[length stable_list1 - 1 :=
                                          (fst (stable_list1 ! (length stable_list1 - 1)), snd (fst d))],
                                stable_alloc, unstable_list, unstable_alloc)
                     else
                       (case push_entry ok (fst d) stable_list1 stable_alloc of
                          None \<Rightarrow> None
                        | Some (stable_list2, alloc2) \<Rightarrow> Some (stable_list2, alloc2, unstable_list, unstable_alloc)))
                  else Some (stable_list1, stable_alloc, unstable_list, unstable_alloc))
           else
             (case push_entry ok (fst d) unstable_list unstable_alloc of
                None \<Rightarrow> None
              | Some (unstable_list1, alloc1) \<Rightarrow> Some (stable_list, stable_alloc, unstable_list1, alloc1)))
        else Some arrays)"

fun merge_dirty_entries ::
  "(nat \<Rightarrow> bool) \<Rightarrow> blockstore_op \<Rightarrow> nat \<Rightarrow> (obj_ver_id \<times> dirty_entry) list \<Rightarrow> list_arrays \<Rightarrow>
   list_arrays option" where
  "merge_dirty_entries ok op clean_stable_count [] arrays = Some arrays"
| "merge_dirty_entries ok op clean_stable_count (d # rest) arrays =
     (case merge_dirty_entry ok op clean_stable_count d arrays of
        None \<Rightarrow> None
      | Some arrays1 \<Rightarrow> merge_dirty_entries ok op clean_stable_count rest arrays1)"

text \<open>
  Modelled from the spec: \<open>FINISH_OP\<close> is a macro of the absent header; it completes
  the operation by invoking its callback with the result.
\<close>

definition FINISH_OP :: "blockstore_op \<Rightarrow> blockstore_impl \<Rightarrow> blockstore_op \<times> blockstore_impl" where
  "FINISH_OP op st = (op, invoke_callback op st)"

text \<open>
  \<open>process_list\<close>. The placement-group test divides by the stripe size; a stripe size
  of zero passes the check at the head only when \<open>MIN_BLOCK_SIZE\<close> is zero, and the
  division is then undefined as soon as an entry is looked at.
\<close>

definition process_list ::
  "blockstore_op \<Rightarrow> blockstore_impl \<Rightarrow> bs_error + (blockstore_op \<times> blockstore_impl)" where
  "process_list op st =
     (if pg_check_failed st op then Inr (FINISH_OP (op\<lparr>retval := - EINVAL\<rparr>) st)
      else
        let stable_alloc = length (clean_db st) div (if pg_count op \<noteq> 0 then pg_count op else 1)
        in if \<not> alloc_ok st stable_alloc then Inr (FINISH_OP (op\<lparr>retval := - ENOMEM\<rparr>) st)
           else if pg_count op \<noteq> 0 \<and> pg_stripe_size op = 0 \<and>
                   (clean_range st op \<noteq> [] \<or> dirty_range st op \<noteq> [])
           then Inl UB_DIVISION_BY_ZERO
           else
             (case copy_clean_entries (alloc_ok st) op (clean_range st op) [] stable_alloc of
                None \<Rightarrow> Inr (FINISH_OP (op\<lparr>retval := - ENOMEM\<rparr>) st)
              | Some (stable_list, stable_alloc1) \<Rightarrow>
                  (case merge_dirty_entries (alloc_ok st) op (length stable_list) (dirty_range st op)
                          (stable_list, stable_alloc1, [], 0) of
                     None \<Rightarrow> Inr (FINISH_OP (op\<lparr>retval := - ENOMEM\<rparr>) st)
                   | Some (stable_list2, stable_alloc2, unstable_list, unstable_alloc) \<Rightarrow>
                       (let stable_list3 = filter (\<lambda>e. snd e \<noteq> 0) stable_list2
                        in if length stable_list3 + length unstable_list > stable_alloc2 \<and>
                              \<not> alloc_ok st (length stable_list3 + length unstable_list)
                           then Inr (FINISH_OP (op\<lparr>retval := - ENOMEM\<rparr>) st)
                           else
                             Inr (FINISH_OP
                                    (op\<lparr>version := word_of_nat (length stable_list3),
                                        retval := int (length stable_list3 + length unstable_list),
                                        buf := stable_list3 @ unstable_list\<rparr>) st)))))"

text \<open>
  Reading the result of a LIST. The inode filter as \<open>process_list\<close> applies it: the
  bounds \<open>min_inode\<close> and \<open>max_inode\<close> are used only when one of them is not zero and
  \<open>min_inode <= max_inode\<close>; otherwise, so also for an inverted range, the objects of
  every inode pass. A dirty entry counts for the stable part when it passes the
  placement-group test, is not a delete and is stable, and for the unstable part when it
  passes the test and is neither a delete nor stable.
\<close>

definition passes_inode_filter :: "blockstore_op \<Rightarrow> object_id \<Rightarrow> bool" where
  "passes_inode_filter op k =
     (inode_range_given op \<longrightarrow> min_inode op \<le> inode k \<and> inode k \<le> max_inode op)"

definition stable_write :: "blockstore_op \<Rightarrow> obj_ver_id \<times> dirty_entry \<Rightarrow> bool" where
  "stable_write op d = (pg_matches op (fst (fst d)) \<and> \<not> IS_DELETE (snd d) \<and> IS_STABLE (snd d))"

definition unstable_write :: "blockstore_op \<Rightarrow> obj_ver_id \<times> dirty_entry \<Rightarrow> bool" where
  "unstable_write op d = (pg_matches op (fst (fst d)) \<and> \<not> IS_DELETE (snd d) \<and> \<not> IS_STABLE (snd d))"

text \<open>
  The invariant of the loop over \<open>dirty_db\<close> on which the two binary searches rely: the
  objects of the stable array are distinct; the part copied from \<open>clean_db\<close> and the part
  appended from \<open>dirty_db\<close> are each in strictly ascending order of the object; and no
  object of the appended part comes after the object of a dirty entry still to be visited.
\<close>

definition merge_invariant ::
  "nat \<Rightarrow> obj_ver_id list \<Rightarrow> (obj_ver_id \<times> dirty_entry) list \<Rightarrow> bool" where
  "merge_invariant clean_stable_count stable_list rest =
     (clean_stable_count \<le> length stable_list \<and> distinct (map fst stable_list) \<and>
      sorted_wrt (<) (take clean_stable_count (map fst stable_list)) \<and>
      sorted_wrt (<) (drop clean_stable_count (map fst stable_list)) \<and>
      (\<forall>k\<in>set (drop clean_stable_count (map fst stable_list)). \<forall>d\<in>set rest. k \<le> fst (fst d)))"



definition dirty_effect :: "object_id \<Rightarrow> u64 \<Rightarrow> obj_ver_id \<times> dirty_entry \<Rightarrow> u64" where
  "dirty_effect k v d =
     (if fst (fst d) = k
      then (if IS_DELETE (snd d) then 0 else if IS_STABLE (snd d) then snd (fst d) else v)
      else v)"

definition version_after :: "object_id \<Rightarrow> u64 \<Rightarrow> (obj_ver_id \<times> dirty_entry) list \<Rightarrow> u64" where
  "version_after k v ds = foldl (dirty_effect k) v ds"





text \<open>What \<open>replace_stable\<close> does to the entry of an object.\<close>

definition set_version :: "object_id \<Rightarrow> u64 \<Rightarrow> obj_ver_id \<Rightarrow> obj_ver_id" where
  "set_version k v e = (if fst e = k then (k, v) else e)"

section \<open>The submit loop (blockstore_impl_t::loop)\<close>

text \<open>
  \<open>check_wait\<close>: is the reason an operation is parked for still there? It clears
  \<open>wait_for\<close> when it is not.
\<close>

definition check_wait ::
  "blockstore_op \<Rightarrow> blockstore_impl \<Rightarrow> bs_error + (blockstore_op \<times> blockstore_impl)" where
  "check_wait op st =
     (case priv_wait_for op of
        WAIT_SQE \<Rightarrow>
          if ring_space st < priv_wait_detail op then Inr (op, st)
          else Inr (op\<lparr>priv_wait_for := NO_WAIT\<rparr>, st)
      | WAIT_JOURNAL \<Rightarrow>
          if journal_used_start st = priv_wait_detail op then Inr (op, st)
          else Inr (op\<lparr>priv_wait_for := NO_WAIT\<rparr>, st\<lparr>trim_releases := trim_releases st + 1\<rparr>)
      | WAIT_JOURNAL_BUFFER \<Rightarrow>
          if journal_sector_count st = 0 then Inl UB_DIVISION_BY_ZERO
          else
            (let next = (journal_cur_sector st + 1) mod journal_sector_count st
             in if next \<ge> length (journal_sector_info st) then Inl UB_OUT_OF_BOUNDS
                else if flush_count (journal_sector_info st ! next) > 0 \<or>
                        dirty (journal_sector_info st ! next)
                then Inr (op, st)
                else Inr (op\<lparr>priv_wait_for := NO_WAIT\<rparr>, st))
      | WAIT_FREE \<Rightarrow>
          if free_count st = 0 \<and> \<not> flusher_active st then Inr (op, st)
          else Inr (op\<lparr>priv_wait_for := NO_WAIT\<rparr>, st)
      | _ \<Rightarrow> Inl (EX_RUNTIME_ERROR ''BUG: op->wait_for value is unexpected''))"

text \<open>
  The handlers of the single opcodes, the flusher, the ring and the two readers of the
  start-up are not among the sources. They are parameters: a handler gets the operation
  and the engine and returns its result with the operation and the engine as it leaves
  them. The handlers leave the submit queue to the loop.
\<close>

type_synonym op_handler =
  "blockstore_op \<Rightarrow> blockstore_impl \<Rightarrow> int \<times> blockstore_op \<times> blockstore_impl"

record handlers =
  dequeue_read :: op_handler
  dequeue_write :: op_handler
  dequeue_del :: op_handler
  impl_continue_sync :: "bool \<Rightarrow> op_handler"
  dequeue_stable :: op_handler
  dequeue_rollback :: op_handler
  flusher_loop :: "blockstore_impl \<Rightarrow> blockstore_impl"
  ring_submit :: "blockstore_impl \<Rightarrow> int \<times> blockstore_impl"
  ring_has_work :: "blockstore_impl \<Rightarrow> bool"
  metadata_init_reader_loop :: "blockstore_impl \<Rightarrow> int \<times> blockstore_impl"
  journal_init_reader_loop :: "blockstore_impl \<Rightarrow> int \<times> blockstore_impl"

text \<open>
  What the loop calls for an operation; the trace of a pass lists the calls in order,
  each with the operation as the call left it and the value it returned (0 for the two
  calls that return nothing).
\<close>

datatype handler_call =
  CALL_CHECK_WAIT | CALL_DEQUEUE_READ | CALL_DEQUEUE_WRITE | CALL_DEQUEUE_DEL |
  CALL_CONTINUE_SYNC | CALL_DEQUEUE_STABLE | CALL_DEQUEUE_ROLLBACK | CALL_PROCESS_LIST

type_synonym call_trace = "(handler_call \<times> blockstore_op \<times> int) list"

text \<open>
  The outcome of the loop body for one operation: whether the loop is left by
  \<open>break\<close>, the new value of \<open>has_writes\<close>, the operation, whether it stays in the
  queue, the calls made and the engine.
\<close>

type_synonym step_outcome =
  "bool \<times> nat \<times> blockstore_op \<times> bool \<times> call_trace \<times> blockstore_impl"

text \<open>
  The end of the loop body, after the handler has run: \<open>dequeue_op\<close> erases the
  operation; \<open>cancel_op\<close> restores the ring to \<open>prev_sqe_pos\<close> (the ring has the free
  space again that it had before the handler) and, when the operation waits for a
  submission slot, records the space needed and leaves the loop.
\<close>

definition finish_step ::
  "nat \<Rightarrow> nat \<Rightarrow> bool \<Rightarrow> bool \<Rightarrow> call_trace \<Rightarrow> blockstore_op \<Rightarrow> blockstore_impl \<Rightarrow> step_outcome" where
  "finish_step has_writes ring_space_before dequeue_op cancel_op cs op st =
     (if cancel_op then
        (if priv_wait_for op = WAIT_SQE
         then (True, has_writes, op\<lparr>priv_wait_detail := 1 + ring_space_before\<rparr>, \<not> dequeue_op, cs,
               st\<lparr>ring_space := ring_space_before\<rparr>)
         else (False, has_writes, op, \<not> dequeue_op, cs, st\<lparr>ring_space := ring_space_before\<rparr>))
      else (False, has_writes, op, \<not> dequeue_op, cs, st))"

text \<open>
  The dispatch on the opcode, for an operation that is not parked. The local
  \<open>has_in_progress_sync\<close> is false when \<open>continue_sync\<close> is called, since it is
  declared anew in every round of the loop.
\<close>

definition dispatch_op ::
  "handlers \<Rightarrow> nat \<Rightarrow> call_trace \<Rightarrow> blockstore_op \<Rightarrow> blockstore_impl \<Rightarrow> bs_error + step_outcome" where
  "dispatch_op h has_writes cs op st =
     (let ring_space_before = ring_space st in
      if opcode op = BS_OP_READ then
        (case dequeue_read h op st of
           (r, op1, st1) \<Rightarrow>
             Inr (finish_step has_writes ring_space_before (r \<noteq> 0) (\<not> r \<noteq> 0)
                    (cs @ [(CALL_DEQUEUE_READ, op1, r)]) op1 st1))
      else if opcode op = BS_OP_WRITE \<or> opcode op = BS_OP_WRITE_STABLE then
        (if has_writes = 2 then Inr (False, has_writes, op, True, cs, st)
         else
           (case dequeue_write h op st of
              (wr_st, op1, st1) \<Rightarrow>
                Inr (finish_step (if wr_st > 0 then 1 else 2) ring_space_before
                       (wr_st = 2) (wr_st = 0) (cs @ [(CALL_DEQUEUE_WRITE, op1, wr_st)]) op1 st1)))
      else if opcode op = BS_OP_DELETE then
        (if has_writes = 2 then Inr (False, has_writes, op, True, cs, st)
         else
           (case dequeue_del h op st of
              (wr_st, op1, st1) \<Rightarrow>
                Inr (finish_step (if wr_st > 0 then 1 else 2) ring_space_before
                       (wr_st = 2) (wr_st = 0) (cs @ [(CALL_DEQUEUE_DEL, op1, wr_st)]) op1 st1)))
      else if opcode op = BS_OP_SYNC then
        (if has_writes \<noteq> 0 then Inr (False, has_writes, op, True, cs, st)
         else
           (case impl_continue_sync h False op st of
              (wr_st, op1, st1) \<Rightarrow>
                Inr (finish_step has_writes ring_space_before
                       (wr_st = 2) (wr_st = 0) (cs @ [(CALL_CONTINUE_SYNC, op1, wr_st)]) op1 st1)))
      else if opcode op = BS_OP_STABLE then
        (case dequeue_stable h op st of
           (wr_st, op1, st1) \<Rightarrow>
             Inr (finish_step has_writes ring_space_before
                    (wr_st = 2) (wr_st = 0) (cs @ [(CALL_DEQUEUE_STABLE, op1, wr_st)]) op1 st1))
      else if opcode op = BS_OP_ROLLBACK then
        (case dequeue_rollback h op st of
           (wr_st, op1, st1) \<Rightarrow>
             Inr (finish_step has_writes ring_space_before
                    (wr_st = 2) (wr_st = 0) (cs @ [(CALL_DEQUEUE_ROLLBACK, op1, wr_st)]) op1 st1))
      else if opcode op = BS_OP_LIST then
        (case process_list op st of
           Inl e \<Rightarrow> Inl e
         | Inr (op1, st1) \<Rightarrow>
             Inr (finish_step has_writes ring_space_before True False
                    (cs @ [(CALL_PROCESS_LIST, op1, 0)]) op1 st1))
      else Inr (finish_step has_writes ring_space_before False False cs op st))"

text \<open>The body of the \<open>while\<close> loop for one operation of the queue.\<close>

definition submit_step ::
  "handlers \<Rightarrow> nat \<Rightarrow> blockstore_op \<Rightarrow> blockstore_impl \<Rightarrow> bs_error + step_outcome" where
  "submit_step h has_writes op st =
     (if priv_wait_for op \<noteq> NO_WAIT then
        (case check_wait op st of
           Inl e \<Rightarrow> Inl e
         | Inr (op1, st1) \<Rightarrow>
             if priv_wait_for op1 = WAIT_SQE
             then Inr (True, has_writes, op1, True, [(CALL_CHECK_WAIT, op1, 0)], st1)
             else if priv_wait_for op1 \<noteq> NO_WAIT
             then Inr (False, (if is_write_opcode (opcode op1) then 2 else has_writes), op1, True,
                       [(CALL_CHECK_WAIT, op1, 0)], st1)
             else dispatch_op h has_writes [(CALL_CHECK_WAIT, op1, 0)] op1 st1)
      else dispatch_op h has_writes [] op st)"

text \<open>
  The \<open>while\<close> loop over the operations not yet visited, with the current
  \<open>has_writes\<close>, the visited operations that stay in the queue, and the trace so far.
  It returns whether it was left by \<open>break\<close>, the final \<open>has_writes\<close>, the queue, the
  trace and the engine.
\<close>

type_synonym pass_outcome =
  "bool \<times> nat \<times> blockstore_op list \<times> call_trace \<times> blockstore_impl"

fun submit_ops ::
  "handlers \<Rightarrow> blockstore_op list \<Rightarrow> nat \<Rightarrow> blockstore_op list \<Rightarrow> call_trace \<Rightarrow> blockstore_impl \<Rightarrow>
   bs_error + pass_outcome" where
  "submit_ops h [] has_writes kept tr st = Inr (False, has_writes, kept, tr, st)"
| "submit_ops h (op # rest) has_writes kept tr st =
     (case submit_step h has_writes op st of
        Inl e \<Rightarrow> Inl e
      | Inr (stop, has_writes1, op1, keep, cs, st1) \<Rightarrow>
          if stop
          then Inr (True, has_writes1, kept @ (if keep then [op1] else []) @ rest, tr @ cs, st1)
          else submit_ops h rest has_writes1 (kept @ (if keep then [op1] else [])) (tr @ cs) st1)"

text \<open>
  The engine's start-up state and its stall detection, as \<open>loop\<close> keeps them.
\<close>

record loop_state =
  engine :: blockstore_impl
  initialized :: nat
  live :: bool
  queue_stall :: bool

text \<open>
  One call of \<open>loop\<close>: the start-up steps until \<open>initialized\<close> is 10, afterwards one
  pass over the submit queue beginning with \<open>has_writes = 0\<close>, the flusher's turn, the
  submission of the ring and the stall detection. It returns the trace of the pass with
  the new state.
\<close>

definition loop :: "handlers \<Rightarrow> loop_state \<Rightarrow> bs_error + (call_trace \<times> loop_state)" where
  "loop h ls =
     (if initialized ls \<noteq> 10 then
        (let ls1 = (if initialized ls = 0 then ls\<lparr>initialized := 1\<rparr> else ls);
             ls2 = (if initialized ls1 = 1 then
                      (case metadata_init_reader_loop h (engine ls1) of
                         (res, st1) \<Rightarrow>
                           if res = 0 then ls1\<lparr>engine := st1, initialized := 2\<rparr>
                           else ls1\<lparr>engine := st1\<rparr>)
                    else ls1);
             ls3 = (if initialized ls2 = 2 then
                      (case journal_init_reader_loop h (engine ls2) of
                         (res, st1) \<Rightarrow>
                           if res = 0
                           then ls2\<lparr>engine := st1\<lparr>ring_wakeups := ring_wakeups st1 + 1\<rparr>,
                                    initialized := 10\<rparr>
                           else ls2\<lparr>engine := st1\<rparr>)
                    else ls2)
         in Inr ([], ls3))
      else
        (let initial_ring_space = ring_space (engine ls) in
         case submit_ops h (submit_queue (engine ls)) 0 [] [] (engine ls) of
           Inl e \<Rightarrow> Inl e
         | Inr (stop, has_writes, queue, tr, st1) \<Rightarrow>
             (let st2 = st1\<lparr>submit_queue := queue\<rparr>;
                  st3 = (if \<not> readonly st2 then flusher_loop h st2 else st2)
              in case ring_submit h st3 of
                   (ret, st4) \<Rightarrow>
                     if ret < 0 then Inl (EX_RUNTIME_ERROR ''io_uring_submit'')
                     else
                       (let live1 = (if initial_ring_space \<noteq> ring_space st4 then True else live ls)
                        in Inr (tr, ls\<lparr>engine := st4,
                                       queue_stall := (\<not> live1 \<and> \<not> ring_has_work h st4),
                                       live := False\<rparr>)))))"

text \<open>
  Reading a trace. A write (WRITE, WRITE_STABLE or DELETE) is attempted when its handler
  is called. It fails to submit when the handler returns no positive value, or when the
  operation is still parked after \<open>check_wait\<close>. A sync is advanced when
  \<open>continue_sync\<close> is called.
\<close>

definition write_attempt :: "handler_call \<times> blockstore_op \<times> int \<Rightarrow> bool" where
  "write_attempt e = (fst e = CALL_DEQUEUE_WRITE \<or> fst e = CALL_DEQUEUE_DEL)"

definition write_failed :: "handler_call \<times> blockstore_op \<times> int \<Rightarrow> bool" where
  "write_failed e =
     ((write_attempt e \<and> snd (snd e) \<le> 0) \<or>
      (fst e = CALL_CHECK_WAIT \<and> is_write_opcode (opcode (fst (snd e))) \<and>
       priv_wait_for (fst (snd e)) \<noteq> NO_WAIT \<and> priv_wait_for (fst (snd e)) \<noteq> WAIT_SQE))"

definition sync_advance :: "handler_call \<times> blockstore_op \<times> int \<Rightarrow> bool" where
  "sync_advance e = (fst e = CALL_CONTINUE_SYNC)"

text \<open>
  What \<open>has_writes\<close> is after the calls \<open>cs\<close> when it was \<open>hw\<close> before them, the
  order in which a pass may make two calls, and the invariant of the \<open>while\<close> loop that
  relates the three: the calls made since \<open>has_writes\<close> was \<open>hw\<close> are in that order,
  none of them attempts a write when \<open>hw\<close> was 2, none advances a sync when \<open>hw\<close> was
  not 0, and \<open>has_writes\<close> is now \<open>hw1\<close>.
\<close>

definition has_writes_after :: "nat \<Rightarrow> call_trace \<Rightarrow> nat" where
  "has_writes_after hw cs =
     (if (\<exists>e\<in>set cs. write_failed e) then 2
      else if (\<exists>e\<in>set cs. write_attempt e) then 1 else hw)"

definition pass_order ::
  "handler_call \<times> blockstore_op \<times> int \<Rightarrow> handler_call \<times> blockstore_op \<times> int \<Rightarrow> bool" where
  "pass_order e e' =
     ((write_failed e \<longrightarrow> \<not> write_attempt e') \<and>
      (write_attempt e \<or> write_failed e \<longrightarrow> \<not> sync_advance e'))"

definition pass_invariant :: "nat \<Rightarrow> nat \<Rightarrow> call_trace \<Rightarrow> bool" where
  "pass_invariant hw hw1 cs =
     (sorted_wrt pass_order cs \<and>
      (hw = 2 \<longrightarrow> (\<forall>e\<in>set cs. \<not> write_attempt e)) \<and>
      (hw \<noteq> 0 \<longrightarrow> (\<forall>e\<in>set cs. \<not> sync_advance e)) \<and>
      hw1 = has_writes_after hw cs)"

subsection \<open>Concrete handlers\<close>

text \<open>
  Handlers for the instances below: reads, stabilisations and rollbacks complete at once,
  a write or delete is refused when its length is 0 and is in progress otherwise, a sync
  is in progress.
\<close>

definition example_handlers :: handlers where
  "example_handlers =
     \<lparr>dequeue_read = (\<lambda>op st. (1, op, st)),
      dequeue_write = (\<lambda>op st. (if len op = 0 then 0 else 1, op, st)),
      dequeue_del = (\<lambda>op st. (if len op = 0 then 0 else 1, op, st)),
      impl_continue_sync = (\<lambda>b op st. (1, op, st)),
      dequeue_stable = (\<lambda>op st. (2, op, st)),
      dequeue_rollback = (\<lambda>op st. (2, op, st)),
      flusher_loop = (\<lambda>st. st),
      ring_submit = (\<lambda>st. (0, st)),
      ring_has_work = (\<lambda>st. False),
      metadata_init_reader_loop = (\<lambda>st. (0, st)),
      journal_init_reader_loop = (\<lambda>st. (0, st))\<rparr>"

section \<open>Concrete inputs\<close>

text \<open>
  A small engine and a small operation on which the theorems below are instantiated: a
  block of 128 KiB, a disk alignment of 512 bytes, empty queues and databases, and a
  write path that accepts every write.
\<close>

definition enqueue_write_accept :: enqueue_write_fn where
  "enqueue_write_accept st op = (True, op, st)"

definition example_op :: blockstore_op where
  "example_op =
     \<lparr>opcode = BS_OP_READ, oid = (1, 0), version = 0, offset = 0, len = 512, buf = [],
      retval = 0, callback = CB_CLIENT 0, priv_wait_for = NO_WAIT, priv_wait_detail = 0,
      priv_op_state = 0, priv_pending_ops = 0\<rparr>"

definition example_engine :: blockstore_impl where
  "example_engine =
     \<lparr>readonly = False, block_size = 131072, disk_alignment = 512, MIN_BLOCK_SIZE = 4096,
      submit_queue = [], unsynced_big_writes = [], unsynced_small_writes = [],
      stop_sync_submitted = False, flusher_active = False, clean_db = [], dirty_db = [],
      ring_space = 512, ring_wakeups = 0, trim_releases = 0, free_count = 1024,
      journal_used_start = 0, journal_cur_sector = 0, journal_sector_count = 4,
      journal_sector_info = [], alloc_ok = (\<lambda>n. True), fired = []\<rparr>"

text \<open>
  A submit queue for one pass of the loop: a write that the handler refuses, a write it
  would accept, a sync and a read.
\<close>

definition example_pass_queue :: "blockstore_op list" where
  "example_pass_queue =
     [example_op\<lparr>opcode := BS_OP_WRITE, len := 0\<rparr>, example_op\<lparr>opcode := BS_OP_WRITE\<rparr>,
      example_op\<lparr>opcode := BS_OP_SYNC\<rparr>, example_op]"

text \<open>
  An engine for LIST: object (1,0) is clean at version 1 and has a stable write of
  version 2, object (2,0) is clean at version 3 and has a delete of version 4, object
  (3,0) has only a write of version 1 that is not stable yet. The LIST operation gives
  neither an inode range nor a placement group.
\<close>

definition example_list_engine :: blockstore_impl where
  "example_list_engine =
     example_engine
       \<lparr>clean_db := [((1, 0), \<lparr>clean_version = 1, clean_location = 0\<rparr>),
                    ((2, 0), \<lparr>clean_version = 3, clean_location = 131072\<rparr>)],
        dirty_db := [(((1, 0), 2), \<lparr>kind = SMALL_WRITE, durab = D_STABLE\<rparr>),
                    (((2, 0), 4), \<lparr>kind = DELETE_ENTRY, durab = D_STABLE\<rparr>),
                    (((3, 0), 1), \<lparr>kind = BIG_WRITE, durab = D_WRITTEN\<rparr>)]\<rparr>"

definition example_list_op :: blockstore_op where
  "example_list_op = example_op\<lparr>opcode := BS_OP_LIST, oid := (0, 0), len := 0\<rparr>"

text \<open>
  An engine in which object (1,0), clean at version 1, was deleted at version 2 and
  written again at version 3, the write being stable.
\<close>

definition example_recreated_engine :: blockstore_impl where
  "example_recreated_engine =
     example_engine
       \<lparr>clean_db := [((1, 0), \<lparr>clean_version = 1, clean_location = 0\<rparr>)],
        dirty_db := [(((1, 0), 2), \<lparr>kind = DELETE_ENTRY, durab = D_STABLE\<rparr>),
                    (((1, 0), 3), \<lparr>kind = SMALL_WRITE, durab = D_STABLE\<rparr>)]\<rparr>"

section \<open>The sync path: acknowledgment, capture, completion\<close>

lemmas sync_path_defs =
  dequeue_sync_def continue_sync_def ack_sync_def handle_sync_event_def update_op_def
  get_sqe_def park_wait_sqe_def sync_state_defs example_blockstore_def new_sync_op_def
  example_journal_env_def set_dirty_state_def dirty_db_at_def free_sector_def

text \<open>
  C1. The claim asks that sync acknowledgments be delivered in submission order. In
  \<open>ack_sync\<close> the callback of the acknowledged sync is invoked after the loop that
  acknowledges its successors. With sync 1 submitted before sync 2 and the fsync of sync 2
  completing first, sync 2 waits (it is DONE with one predecessor, and no callback has
  been invoked); when sync 1 completes, the callback of sync 2 is invoked before the one
  of sync 1.
\<close>

theorem ack_sync_acknowledges_successor_first:
  "(case two_syncs_in_flight of
      Inl e \<Rightarrow> False
    | Inr (st3, st4) \<Rightarrow>
        in_progress_syncs st3 = [1, 2] \<and> called_back st3 = [] \<and>
        sync_state (ops st3 2) = SYNC_DONE \<and> prev_sync_count (ops st3 2) = 1 \<and>
        called_back st4 = [(2, 0), (1, 0)] \<and> in_progress_syncs st4 = [])"
  by (simp add: two_syncs_in_flight_def sync_path_defs Let_def)

text \<open>
  C2. A SYNC dispatched with both unsynced lists empty gets the state DONE, but
  \<open>continue_sync\<close> returns 0 for that state and \<open>dequeue_sync\<close> calls \<open>ack_sync\<close>
  only after a non-zero return: no callback is invoked, nothing is submitted, the sync
  is not in \<open>in_progress_syncs\<close>, and dispatching it again changes nothing.
\<close>

theorem dequeue_sync_empty_never_acknowledges:
  "(case dequeue_sync example_journal_env 1 example_blockstore of
      Inl e \<Rightarrow> False
    | Inr (r, st) \<Rightarrow>
        r = 0 \<and> sync_state (ops st 1) = SYNC_DONE \<and> called_back st = [] \<and>
        in_progress_syncs st = [] \<and> submitted st = [] \<and>
        dequeue_sync example_journal_env 1 st = Inr (0, st))"
  by (simp add: sync_path_defs Let_def)

text \<open>
  C3. The release loop stops when it reaches \<open>max_used_journal_sector\<close>, before
  decrementing it. A sync that used the one journal sector 0 (both ends of its range are
  1) completes and is acknowledged, its range is reset, and the usage count of the sector
  is still 1.
\<close>

theorem handle_sync_event_keeps_last_sector_reference:
  "(case handle_sync_event 0 1 sync_with_one_journal_sector of
      Inl e \<Rightarrow> False
    | Inr st \<Rightarrow>
        map usage_count (sector_info (journal st)) = [1, 0, 0, 0] \<and>
        min_used_journal_sector (ops st 1) = 0 \<and> max_used_journal_sector (ops st 1) = 0 \<and>
        sync_state (ops st 1) = SYNC_DONE \<and> called_back st = [(1, 0)])"
  by (simp add: sync_with_one_journal_sector_def sync_path_defs Let_def)

text \<open>
  The same loop on a range that wraps around a journal of four sectors, from sector
  number 3 to sector number 1: after sector 3 the step \<open>(s + 1) % sector_count\<close> yields
  0, and \<open>sector_info[s - 1]\<close> is read outside the array; sector number 4 is skipped.
\<close>

lemma release_journal_sectors_wrap:
  "release_journal_sectors 4 1 3
     [free_sector, free_sector, free_sector\<lparr>usage_count := 1\<rparr>, free_sector\<lparr>usage_count := 1\<rparr>] =
   Inl UB_OUT_OF_BOUNDS"
  by (simp add: free_sector_def)

text \<open>
  On a range that does not wrap the loop decrements the sectors from the first up to,
  and not including, the last.
\<close>

lemma release_journal_sectors_half_open:
  "release_journal_sectors 4 3 1
     [free_sector\<lparr>usage_count := 1\<rparr>, free_sector\<lparr>usage_count := 1\<rparr>,
      free_sector\<lparr>usage_count := 1\<rparr>, free_sector] =
   Inr [free_sector, free_sector, free_sector\<lparr>usage_count := 1\<rparr>, free_sector]"
  by (simp add: free_sector_def)

section \<open>Verification in enqueue_op\<close>

lemmas enqueue_op_defs =
  enqueue_op_def reaches_alignment_check_def verification_failed_def
  is_rw_opcode_def is_write_opcode_def invoke_callback_def

text \<open>
  C4 (as amended). With a non-zero disk alignment: if the opcode is outside the valid
  range, or the opcode is READ, WRITE or WRITE_STABLE and the offset is not below the
  block size, or the length exceeds what is left of the block, or the length is not a
  multiple of the disk alignment, or the engine is readonly and the opcode is neither
  READ nor LIST, then \<open>enqueue_op\<close> invokes the callback with retval \<open>-EINVAL\<close> and
  changes nothing else: the submit queue and every other field of the engine stay as
  they were, and the write path is not consulted. The alignment of the offset is not
  part of the check.
\<close>

theorem enqueue_op_rejects_invalid:
  assumes "0 < disk_alignment st"
    and "opcode op < BS_OP_MIN \<or> opcode op > BS_OP_MAX \<or>
         ((opcode op = BS_OP_READ \<or> opcode op = BS_OP_WRITE \<or> opcode op = BS_OP_WRITE_STABLE) \<and>
          (offset op \<ge> block_size st \<or> len op > block_size st - offset op \<or>
           \<not> disk_alignment st dvd len op)) \<or>
         (readonly st \<and> opcode op \<noteq> BS_OP_READ \<and> opcode op \<noteq> BS_OP_LIST)"
  shows "enqueue_op enqueue_write op st =
           Inr (st\<lparr>fired := fired st @ [op\<lparr>retval := - EINVAL\<rparr>]\<rparr>)"
proof -
  have "verification_failed st op"
    using assms(2) by (auto simp add: verification_failed_def is_rw_opcode_def dvd_eq_mod_eq_0)
  then show ?thesis
    using assms(1) by (simp add: enqueue_op_def invoke_callback_def)
qed

theorem enqueue_op_rejects_invalid_witness:
  "0 < disk_alignment example_engine \<and>
   opcode (example_op\<lparr>len := 100\<rparr>) = BS_OP_READ \<and>
   \<not> disk_alignment example_engine dvd len (example_op\<lparr>len := 100\<rparr>) \<and>
   enqueue_op enqueue_write_accept (example_op\<lparr>len := 100\<rparr>) example_engine =
     Inr (example_engine\<lparr>fired := [example_op\<lparr>len := 100, retval := - 22\<rparr>]\<rparr>)"
  using enqueue_op_rejects_invalid [of example_engine "example_op\<lparr>len := 100\<rparr>" enqueue_write_accept]
  by (simp add: example_engine_def example_op_def EINVAL_def)

text \<open>
  C4 as stated fails: a READ of 512 bytes at offset 1 has an offset that is not a multiple
  of the disk alignment of 512, and \<open>enqueue_op\<close> puts it on the submit queue without
  invoking its callback.
\<close>

theorem enqueue_op_unaligned_offset_counterexample:
  "opcode (example_op\<lparr>offset := 1\<rparr>) = BS_OP_READ \<and>
   \<not> disk_alignment example_engine dvd offset (example_op\<lparr>offset := 1\<rparr>) \<and>
   enqueue_op enqueue_write_accept (example_op\<lparr>offset := 1\<rparr>) example_engine =
     Inr (example_engine\<lparr>submit_queue := [example_op\<lparr>offset := 1\<rparr>], ring_wakeups := 1\<rparr>) \<and>
   fired (example_engine\<lparr>submit_queue := [example_op\<lparr>offset := 1\<rparr>], ring_wakeups := 1\<rparr>) = []"
  by (simp add: enqueue_op_defs example_engine_def example_op_def bs_op_defs)

section \<open>is_safe_to_stop\<close>

lemma enqueue_op_internal_sync:
  "\<not> readonly st \<Longrightarrow>
   enqueue_op ew (fresh\<lparr>opcode := BS_OP_SYNC, buf := [], callback := CB_DELETE_OP\<rparr>) st =
     Inr (st\<lparr>submit_queue := submit_queue st @
                 [fresh\<lparr>opcode := BS_OP_SYNC, buf := [], callback := CB_DELETE_OP,
                        priv_wait_for := NO_WAIT, priv_op_state := 0, priv_pending_ops := 0\<rparr>],
              ring_wakeups := ring_wakeups st + 1\<rparr>)"
  by (simp add: enqueue_op_defs bs_op_defs)

text \<open>
  C6 (as amended). \<open>is_safe_to_stop\<close> returns true only when the submit queue is empty,
  the flusher is inactive (when not readonly) and both unsynced lists are empty, and it
  then leaves the engine as it is. A call that finds the submit queue empty and the flusher
  inactive, with unsynced writes, the engine not readonly and \<open>stop_sync_submitted\<close> not
  yet set, enqueues exactly one internal SYNC, sets \<open>stop_sync_submitted\<close> and returns
  false. Once \<open>stop_sync_submitted\<close> is set no call changes the engine, so the SYNC is
  never injected twice. A later call returns true once the queue is empty again, the
  flusher is inactive and the unsynced lists have been drained.
\<close>

theorem is_safe_to_stop_injects_sync_once:
  "(is_safe_to_stop ew fresh st = Inr (True, st') \<longrightarrow>
      submit_queue st = [] \<and> (readonly st \<or> \<not> flusher_active st) \<and>
      unsynced_big_writes st = [] \<and> unsynced_small_writes st = [] \<and> st' = st) \<and>
   (submit_queue st = [] \<and> \<not> flusher_active st \<and> \<not> readonly st \<and> \<not> stop_sync_submitted st \<and>
    (unsynced_big_writes st \<noteq> [] \<or> unsynced_small_writes st \<noteq> []) \<longrightarrow>
      is_safe_to_stop ew fresh st =
        Inr (False, st\<lparr>submit_queue :=
                          [fresh\<lparr>opcode := BS_OP_SYNC, buf := [], callback := CB_DELETE_OP,
                                 priv_wait_for := NO_WAIT, priv_op_state := 0, priv_pending_ops := 0\<rparr>],
                        ring_wakeups := ring_wakeups st + 1, stop_sync_submitted := True\<rparr>)) \<and>
   (stop_sync_submitted st \<longrightarrow>
      (\<exists>r. is_safe_to_stop ew fresh st = Inr (r, st))) \<and>
   (submit_queue st = [] \<and> (readonly st \<or> \<not> flusher_active st) \<and>
    unsynced_big_writes st = [] \<and> unsynced_small_writes st = [] \<longrightarrow>
      is_safe_to_stop ew fresh st = Inr (True, st))"
  using enqueue_op_internal_sync [of st ew fresh]
  by (auto simp add: is_safe_to_stop_def split: sum.splits if_splits)

text \<open>
  The scenario of the spec: a write is unsynced, the queue is empty. The first call
  injects the SYNC and returns false; after the SYNC has left the queue and emptied the
  unsynced list, the next call returns true.
\<close>

theorem is_safe_to_stop_injects_sync_once_witness:
  "submit_queue (example_engine\<lparr>unsynced_small_writes := [((1, 0), 1)]\<rparr>) = [] \<and>
   \<not> flusher_active (example_engine\<lparr>unsynced_small_writes := [((1, 0), 1)]\<rparr>) \<and>
   \<not> readonly (example_engine\<lparr>unsynced_small_writes := [((1, 0), 1)]\<rparr>) \<and>
   \<not> stop_sync_submitted (example_engine\<lparr>unsynced_small_writes := [((1, 0), 1)]\<rparr>) \<and>
   unsynced_small_writes (example_engine\<lparr>unsynced_small_writes := [((1, 0), 1)]\<rparr>) \<noteq> [] \<and>
   is_safe_to_stop enqueue_write_accept example_op
       (example_engine\<lparr>unsynced_small_writes := [((1, 0), 1)]\<rparr>) =
     Inr (False, example_engine
        \<lparr>unsynced_small_writes := [((1, 0), 1)],
         submit_queue := [example_op\<lparr>opcode := BS_OP_SYNC, buf := [], callback := CB_DELETE_OP\<rparr>],
         ring_wakeups := 1, stop_sync_submitted := True\<rparr>) \<and>
   is_safe_to_stop enqueue_write_accept example_op
       (example_engine\<lparr>ring_wakeups := 1, stop_sync_submitted := True\<rparr>) =
     Inr (True, example_engine\<lparr>ring_wakeups := 1, stop_sync_submitted := True\<rparr>)"
  using is_safe_to_stop_injects_sync_once
          [of enqueue_write_accept example_op
              "example_engine\<lparr>unsynced_small_writes := [((1, 0), 1)]\<rparr>"]
        is_safe_to_stop_injects_sync_once
          [of enqueue_write_accept example_op
              "example_engine\<lparr>ring_wakeups := 1, stop_sync_submitted := True\<rparr>"]
  by (simp add: example_engine_def example_op_def)

text \<open>
  C6 as stated fails: with an unsynced write, the engine not readonly, and an operation
  still in the submit queue, the first call returns false without enqueueing a SYNC; the
  queue and \<open>stop_sync_submitted\<close> are as before.
\<close>

theorem is_safe_to_stop_busy_queue_counterexample:
  "\<not> readonly (example_engine\<lparr>submit_queue := [example_op], unsynced_small_writes := [((1, 0), 1)]\<rparr>) \<and>
   unsynced_small_writes
     (example_engine\<lparr>submit_queue := [example_op], unsynced_small_writes := [((1, 0), 1)]\<rparr>) \<noteq> [] \<and>
   \<not> stop_sync_submitted
     (example_engine\<lparr>submit_queue := [example_op], unsynced_small_writes := [((1, 0), 1)]\<rparr>) \<and>
   is_safe_to_stop enqueue_write_accept example_op
     (example_engine\<lparr>submit_queue := [example_op], unsynced_small_writes := [((1, 0), 1)]\<rparr>) =
     Inr (False, example_engine\<lparr>submit_queue := [example_op],
                                 unsynced_small_writes := [((1, 0), 1)]\<rparr>)"
  by (simp add: is_safe_to_stop_def example_engine_def)

text \<open>
  C10. In a readonly engine \<open>is_safe_to_stop\<close> returns the engine unchanged: it answers
  whether the submit queue and both unsynced lists are empty, whatever the flusher's
  activity, and enqueues nothing, so any number of calls in a row leaves the engine,
  with its submit queue and \<open>stop_sync_submitted\<close>, as it was.
\<close>

theorem is_safe_to_stop_readonly_frame:
  assumes "readonly st"
  shows "is_safe_to_stop ew fresh st =
           Inr (submit_queue st = [] \<and> unsynced_big_writes st = [] \<and>
                unsynced_small_writes st = [], st) \<and>
         is_safe_to_stop ew fresh (st\<lparr>flusher_active := b\<rparr>) =
           Inr (submit_queue st = [] \<and> unsynced_big_writes st = [] \<and>
                unsynced_small_writes st = [], st\<lparr>flusher_active := b\<rparr>) \<and>
         is_safe_to_stop_repeat ew fresh n st =
           Inr (replicate n (submit_queue st = [] \<and> unsynced_big_writes st = [] \<and>
                             unsynced_small_writes st = []), st)"
proof -
  have one: "\<And>s. readonly s \<Longrightarrow> is_safe_to_stop ew fresh s =
      Inr (submit_queue s = [] \<and> unsynced_big_writes s = [] \<and> unsynced_small_writes s = [], s)"
    by (simp add: is_safe_to_stop_def)
  have rep: "is_safe_to_stop_repeat ew fresh n st =
           Inr (replicate n (submit_queue st = [] \<and> unsynced_big_writes st = [] \<and>
                             unsynced_small_writes st = []), st)"
    using assms by (induction n) (simp_all add: one)
  show ?thesis
    using assms one [of st] one [of "st\<lparr>flusher_active := b\<rparr>"] rep by simp
qed

theorem is_safe_to_stop_readonly_frame_witness:
  "readonly (example_engine\<lparr>readonly := True, unsynced_small_writes := [((1, 0), 1)]\<rparr>) \<and>
   is_safe_to_stop enqueue_write_accept example_op
     (example_engine\<lparr>readonly := True, unsynced_small_writes := [((1, 0), 1)],
                     flusher_active := True\<rparr>) =
     Inr (False, example_engine\<lparr>readonly := True, unsynced_small_writes := [((1, 0), 1)],
                                 flusher_active := True\<rparr>) \<and>
   is_safe_to_stop_repeat enqueue_write_accept example_op 3
     (example_engine\<lparr>readonly := True, unsynced_small_writes := [((1, 0), 1)]\<rparr>) =
     Inr ([False, False, False],
          example_engine\<lparr>readonly := True, unsynced_small_writes := [((1, 0), 1)]\<rparr>)"
  using is_safe_to_stop_readonly_frame
          [of "example_engine\<lparr>readonly := True, unsynced_small_writes := [((1, 0), 1)]\<rparr>"
              enqueue_write_accept example_op True 3]
  by (simp add: example_engine_def numeral_3_eq_3)

section \<open>Records per metadata block\<close>

lemmas process_meta_defs =
  process_meta_def legacy_device_def v1_device_def example_disk_tool_def initial_buf_size_def
  sizeof_clean_disk_entry_def

text \<open>
  C8. The inner loop of the legacy layout runs while
  \<open>ioff < meta_block_size - clean_entry_size\<close>, where the loop of the layout with a
  superblock runs while \<open>ioff <= meta_block_size - clean_entry_size\<close>. On a metadata
  block of 1536 bytes without a superblock, with records of 24 bytes, 1536 div 24 = 64
  records fit a block; \<open>process_meta\<close> calls \<open>hdr_fn\<close> with NULL and then \<open>record_fn\<close>
  63 times, for the block numbers 0 to 62. (The legacy branch also does not seek back
  after the read that looked for the superblock: the first record it passes on stands at
  file offset 1536, behind the metadata area.)
\<close>

theorem process_meta_legacy_misses_last_record:
  "(case process_meta legacy_device (example_disk_tool 1536) of
      Inl e \<Rightarrow> False
    | Inr (r, t) \<Rightarrow>
        r = 0 \<and> hd (calls t) = HDR_FN None \<and> length (tl (calls t)) = 63 \<and>
        calls t ! 1 = RECORD_FN 0 1536 False \<and> last (calls t) = RECORD_FN 62 3024 False \<and>
        meta_block_size (dsk t) div clean_entry_size (dsk t) = 64)"
  by (simp add: process_meta_defs Let_def)

text \<open>
  The layout with a superblock on the same block size: after the block of the superblock,
  one block of records of 24 + 2 * 4 bytes yields 1536 div 32 = 48 calls of
  \<open>record_fn\<close>, with bitmaps.
\<close>

lemma process_meta_v1_reads_all_records:
  "(case process_meta v1_device (example_disk_tool 3072) of
      Inl e \<Rightarrow> False
    | Inr (r, t) \<Rightarrow>
        r = 0 \<and> hd (calls t) = HDR_FN (Some (header_on_device v1_device)) \<and>
        length (tl (calls t)) = 48 \<and>
        calls t ! 1 = RECORD_FN 0 1536 True \<and> last (calls t) = RECORD_FN 47 3040 True \<and>
        clean_entry_size (dsk t) = 32 \<and>
        meta_block_size (dsk t) div clean_entry_size (dsk t) = 48)"
  by (simp add: process_meta_defs Let_def)

section \<open>LIST\<close>

lemma takeWhile_le_sorted:
  "sorted (map f xs) \<Longrightarrow> takeWhile (\<lambda>x. f x \<le> hi) xs = filter (\<lambda>x. f x \<le> hi) xs"
proof (induction xs)
  case Nil
  then show ?case by simp
next
  case (Cons x xs)
  show ?case
  proof (cases "f x \<le> hi")
    case True
    then show ?thesis using Cons by simp
  next
    case False
    then have "\<forall>y\<in>set xs. \<not> f y \<le> hi" using Cons.prems by force
    then have "filter (\<lambda>x. f x \<le> hi) xs = []" by (simp add: filter_empty_conv)
    then show ?thesis using False by simp
  qed
qed

lemma dropWhile_lt_sorted:
  "sorted (map f xs) \<Longrightarrow> dropWhile (\<lambda>x. f x < lo) xs = filter (\<lambda>x. lo \<le> f x) xs"
proof (induction xs)
  case Nil
  then show ?case by simp
next
  case (Cons x xs)
  show ?case
  proof (cases "f x < lo")
    case True
    then show ?thesis using Cons by simp
  next
    case False
    then have "\<forall>y\<in>set (x # xs). lo \<le> f y" using Cons.prems by force
    then have "filter (\<lambda>x. lo \<le> f x) (x # xs) = x # xs" by (simp only: filter_True)
    then show ?thesis using False by simp
  qed
qed

lemma map_range_filter:
  assumes "sorted (map fst m)"
  shows "map_range lo hi m = filter (\<lambda>e. lo \<le> fst e \<and> fst e \<le> hi) m"
proof -
  have "sorted (map fst (filter (\<lambda>e. lo \<le> fst e) m))"
    using assms by (simp add: sorted_filter)
  then show ?thesis
    unfolding map_range_def
    using dropWhile_lt_sorted[OF assms, of lo] takeWhile_le_sorted[of fst "filter (\<lambda>e. lo \<le> fst e) m" hi]
    by (simp add: conj_commute)
qed

lemma oid_lower_bound: "((lo, 0) \<le> (k :: object_id)) = (lo \<le> inode k)"
  by (cases k) (auto simp add: less_eq_prod_def inode_def)

lemma oid_upper_bound: "((k :: object_id) \<le> (hi, UINT64_MAX)) = (inode k \<le> hi)"
  by (cases k) (auto simp add: less_eq_prod_def inode_def UINT64_MAX_def)

lemma key_lower_bound: "(((lo, 0), 0) \<le> (k :: obj_ver_id)) = (lo \<le> inode (fst k))"
  by (cases k) (auto simp add: less_eq_prod_def less_prod_def inode_def)

lemma key_upper_bound: "((k :: obj_ver_id) \<le> ((hi, UINT64_MAX), UINT64_MAX)) = (inode (fst k) \<le> hi)"
  by (cases k) (auto simp add: less_eq_prod_def less_prod_def inode_def UINT64_MAX_def)

lemma clean_range_filter:
  "sorted (map fst (clean_db st)) \<Longrightarrow>
   clean_range st op = filter (\<lambda>c. passes_inode_filter op (fst c)) (clean_db st)"
  by (simp add: clean_range_def map_range_filter oid_lower_bound oid_upper_bound passes_inode_filter_def)

lemma dirty_range_filter:
  "sorted (map fst (dirty_db st)) \<Longrightarrow>
   dirty_range st op = filter (\<lambda>d. passes_inode_filter op (fst (fst d))) (dirty_db st)"
  by (simp add: dirty_range_def map_range_filter key_lower_bound key_upper_bound passes_inode_filter_def)

lemma replace_stable_result:
  "replace_stable k v s e l = (False, l) \<or>
   (\<exists>i. s \<le> i \<and> i < e \<and> fst (l ! i) = k \<and> replace_stable k v s e l = (True, l[i := (k, v)]))"
proof (induction k v s e l rule: replace_stable.induct)
  case (1 k v s e l)
  show ?case
  proof (cases "s < e")
    case False
    then show ?thesis by (simp add: replace_stable.simps[of k v s e l])
  next
    case True
    define pos where "pos = s + (e - s) div 2"
    have bounds: "s \<le> pos" "pos < e" using True by (simp_all add: pos_def) 
    consider (lt) "k < fst (l ! pos)" | (gt) "\<not> k < fst (l ! pos)" "fst (l ! pos) < k"
      | (eq) "\<not> k < fst (l ! pos)" "\<not> fst (l ! pos) < k" by blast
    then show ?thesis
    proof cases
      case lt
      then have eq: "replace_stable k v s e l = replace_stable k v s pos l"
        using True by (simp add: replace_stable.simps[of k v s e l] pos_def Let_def)
      from "1.IH"(1)[OF True pos_def lt]
      have "replace_stable k v s pos l = (False, l) \<or>
            (\<exists>i. s \<le> i \<and> i < pos \<and> fst (l ! i) = k \<and> replace_stable k v s pos l = (True, l[i := (k, v)]))"
        .
      then show ?thesis using eq bounds by fastforce
    next
      case gt
      then have eq: "replace_stable k v s e l = replace_stable k v (pos + 1) e l"
        using True by (simp add: replace_stable.simps[of k v s e l] pos_def Let_def)
      from "1.IH"(2)[OF True pos_def gt]
      have "replace_stable k v (pos + 1) e l = (False, l) \<or>
            (\<exists>i. pos + 1 \<le> i \<and> i < e \<and> fst (l ! i) = k \<and> replace_stable k v (pos + 1) e l = (True, l[i := (k, v)]))"
        .
      then show ?thesis using eq bounds by fastforce
    next
      case eq
      then have k: "fst (l ! pos) = k" by simp
      have "replace_stable k v s e l = (True, l[pos := (k, v)])"
        using True eq k by (simp add: replace_stable.simps[of k v s e l] pos_def[symmetric] Let_def)
      then show ?thesis using bounds k by blast
    qed
  qed
qed

lemma push_entry_Some: "push_entry ok e arr alloc = Some r \<Longrightarrow> \<exists>a. r = (arr @ [e], a)"
  by (auto simp add: push_entry_def split: if_splits)

lemma push_entry_total: "\<forall>n. ok n \<Longrightarrow> push_entry ok e arr alloc \<noteq> None"
  by (simp add: push_entry_def)

lemma copy_clean_entries_Some:
  "copy_clean_entries ok op cs acc alloc = Some r \<Longrightarrow>
   \<exists>a. r = (acc @ map (\<lambda>c. (fst c, clean_version (snd c))) (filter (\<lambda>c. pg_matches op (fst c)) cs), a)"
proof (induction cs arbitrary: acc alloc)
  case Nil
  then show ?case by auto
next
  case (Cons c cs)
  show ?case
  proof (cases "pg_matches op (fst c)")
    case False
    then show ?thesis using Cons by simp
  next
    case True
    then obtain r1 where p: "push_entry ok (fst c, clean_version (snd c)) acc alloc = Some r1"
      using Cons.prems by (cases "push_entry ok (fst c, clean_version (snd c)) acc alloc") auto
    then obtain a1 where r1: "r1 = (acc @ [(fst c, clean_version (snd c))], a1)"
      using push_entry_Some by blast
    have "copy_clean_entries ok op cs (acc @ [(fst c, clean_version (snd c))]) a1 = Some r"
      using Cons.prems True p r1 by simp
    from Cons.IH[OF this] show ?thesis using True by simp
  qed
qed

lemma replace_stable_set:
  "set (snd (replace_stable k v s e l)) \<subseteq> insert (k, v) (set l)"
proof -
  from replace_stable_result[of k v s e l]
  consider "replace_stable k v s e l = (False, l)"
    | i where "replace_stable k v s e l = (True, l[i := (k, v)])" by blast
  then show ?thesis
  proof cases
    case 1
    then show ?thesis by auto
  next
    case 2
    then show ?thesis using set_update_subset_insert[of l i "(k, v)"] by simp
  qed
qed

lemma merge_dirty_entry_Some:
  assumes r: "merge_dirty_entry ok op csc d (S, a, U, b) = Some R"
  shows "\<exists>S' a' b'. R = (S', a', U @ (if unstable_write op d then [fst d] else []), b') \<and>
          (\<forall>e\<in>set S'. e \<in> set S \<or> snd e = 0 \<or> (e = fst d \<and> stable_write op d))"
proof (cases "pg_matches op (fst (fst d))")
  case False
  then show ?thesis using r by (auto simp add: merge_dirty_entry_def unstable_write_def)
next
  case pg: True
  show ?thesis
  proof (cases "IS_DELETE (snd d)")
    case True
    obtain f S1 where r1: "replace_stable (fst (fst d)) 0 0 csc S = (f, S1)"
      by (cases "replace_stable (fst (fst d)) 0 0 csc S") auto
    have s1: "set S1 \<subseteq> insert (fst (fst d), 0) (set S)"
      using replace_stable_set[of "fst (fst d)" 0 0 csc S] r1 by simp
    have s2: "set (snd (replace_stable (fst (fst d)) 0 csc (length S1) S1)) \<subseteq> insert (fst (fst d), 0) (set S)"
      using replace_stable_set[of "fst (fst d)" 0 csc "length S1" S1] s1 by auto
    show ?thesis
    proof (cases f)
      case True
      then have "R = (S1, a, U, b)"
        using r pg \<open>IS_DELETE (snd d)\<close> r1 by (simp add: merge_dirty_entry_def)
      moreover have "\<forall>e\<in>set S1. e \<in> set S \<or> snd e = 0" using s1 by auto
      ultimately show ?thesis using \<open>IS_DELETE (snd d)\<close> by (auto simp add: unstable_write_def)
    next
      case False
      then have "R = (snd (replace_stable (fst (fst d)) 0 csc (length S1) S1), a, U, b)"
        using r pg \<open>IS_DELETE (snd d)\<close> r1 by (simp add: merge_dirty_entry_def)
      moreover have "\<forall>e\<in>set (snd (replace_stable (fst (fst d)) 0 csc (length S1) S1)). e \<in> set S \<or> snd e = 0"
        using s2 by auto
      ultimately show ?thesis using \<open>IS_DELETE (snd d)\<close> by (auto simp add: unstable_write_def)
    qed
  next
    case nd: False
    show ?thesis
    proof (cases "IS_STABLE (snd d)")
      case False
      then have "push_entry ok (fst d) U b \<noteq> None"
        using r pg nd by (auto simp add: merge_dirty_entry_def split: option.splits)
      then obtain b1 where p: "push_entry ok (fst d) U b = Some (U @ [fst d], b1)"
        using push_entry_Some by fastforce
      then show ?thesis using r pg nd False
        by (auto simp add: merge_dirty_entry_def unstable_write_def)
    next
      case st: True
      have sw: "stable_write op d" using pg nd st by (simp add: stable_write_def)
      have nu: "\<not> unstable_write op d" using st by (simp add: unstable_write_def)
      obtain f S1 where r1: "replace_stable (fst (fst d)) (snd (fst d)) 0 csc S = (f, S1)"
        by (cases "replace_stable (fst (fst d)) (snd (fst d)) 0 csc S") auto
      have s1: "set S1 \<subseteq> insert (fst d) (set S)"
        using replace_stable_set[of "fst (fst d)" "snd (fst d)" 0 csc S] r1 by simp
      show ?thesis
      proof (cases f)
        case True
        then have "R = (S1, a, U, b)"
          using r pg nd st r1 by (simp add: merge_dirty_entry_def)
        then show ?thesis using s1 sw nu by auto
      next
        case nf: False
        then have S1: "S1 = S" using replace_stable_result[of "fst (fst d)" "snd (fst d)" 0 csc S] r1 by auto
        show ?thesis
        proof (cases "length S1 > 0 \<and> fst (S1 ! (length S1 - 1)) = fst (fst d)")
          case True
          then have m: "R = (S1[length S1 - 1 := fst d], a, U, b)"
            using r pg nd st r1 nf by (simp add: merge_dirty_entry_def)
          have "set (S1[length S1 - 1 := fst d]) \<subseteq> insert (fst d) (set S)"
            using set_update_subset_insert[of S1 "length S1 - 1" "fst d"] s1 by auto
          then show ?thesis using m sw nu by auto
        next
          case False
          then have "push_entry ok (fst d) S1 a \<noteq> None"
            using r pg nd st r1 nf by (auto simp add: merge_dirty_entry_def split: option.splits)
          then obtain a1 where p: "push_entry ok (fst d) S1 a = Some (S1 @ [fst d], a1)"
            using push_entry_Some by fastforce
          have m: "R = (S1 @ [fst d], a1, U, b)"
            using r pg nd st r1 nf False p by (auto simp add: merge_dirty_entry_def)
          then show ?thesis using S1 sw nu by auto
        qed
      qed
    qed
  qed
qed

lemma merge_dirty_entry_total:
  "\<forall>n. ok n \<Longrightarrow> merge_dirty_entry ok op csc d A \<noteq> None"
  by (cases A) (auto simp add: merge_dirty_entry_def push_entry_def split: prod.splits)

lemma merge_dirty_entries_Some:
  "merge_dirty_entries ok op csc ds (S, a, U, b) = Some R \<Longrightarrow>
   \<exists>S' a' b'. R = (S', a', U @ map fst (filter (unstable_write op) ds), b') \<and>
     (\<forall>e\<in>set S'. e \<in> set S \<or> snd e = 0 \<or> (\<exists>d\<in>set ds. e = fst d \<and> stable_write op d))"
proof (induction ds arbitrary: S a U b)
  case Nil
  then show ?case by auto
next
  case (Cons d ds)
  from Cons.prems obtain R1 where m1: "merge_dirty_entry ok op csc d (S, a, U, b) = Some R1"
    by (cases "merge_dirty_entry ok op csc d (S, a, U, b)") auto
  then obtain S1 a1 b1 where
    R1: "R1 = (S1, a1, U @ (if unstable_write op d then [fst d] else []), b1)"
    and s: "\<forall>e\<in>set S1. e \<in> set S \<or> snd e = 0 \<or> (e = fst d \<and> stable_write op d)"
    using merge_dirty_entry_Some by blast
  have "merge_dirty_entries ok op csc ds (S1, a1, U @ (if unstable_write op d then [fst d] else []), b1) = Some R"
    using Cons.prems m1 R1 by simp
  from Cons.IH[OF this] obtain S2 a2 b2 where
    R: "R = (S2, a2, (U @ (if unstable_write op d then [fst d] else [])) @ map fst (filter (unstable_write op) ds), b2)"
    and s2: "\<forall>e\<in>set S2. e \<in> set S1 \<or> snd e = 0 \<or> (\<exists>d\<in>set ds. e = fst d \<and> stable_write op d)"
    by blast
  have "R = (S2, a2, U @ map fst (filter (unstable_write op) (d # ds)), b2)"
    using R by simp
  moreover have "\<forall>e\<in>set S2. e \<in> set S \<or> snd e = 0 \<or> (\<exists>d'\<in>set (d # ds). e = fst d' \<and> stable_write op d')"
    using s s2 by (metis list.set_intros(1) list.set_intros(2))
  ultimately show ?case by blast
qed

lemma merge_dirty_entries_total:
  assumes ok: "\<forall>n. ok n"
  shows "merge_dirty_entries ok op csc ds A \<noteq> None"
proof (induction ds arbitrary: A)
  case Nil
  then show ?case by simp
next
  case (Cons d ds)
  obtain R1 where "merge_dirty_entry ok op csc d A = Some R1"
    using merge_dirty_entry_total[OF ok, of op csc d A] by auto
  then show ?case using Cons[of R1] by simp
qed

lemma copy_clean_entries_total:
  assumes ok: "\<forall>n. ok n"
  shows "copy_clean_entries ok op cs acc alloc \<noteq> None"
proof (induction cs arbitrary: acc alloc)
  case Nil
  then show ?case by simp
next
  case (Cons c cs)
  obtain r1 where "push_entry ok (fst c, clean_version (snd c)) acc alloc = Some r1"
    using push_entry_total[OF ok, of "(fst c, clean_version (snd c))" acc alloc] by auto
  then show ?case using Cons by (cases r1) simp
qed

lemma process_list_failed_check:
  "pg_check_failed st op \<Longrightarrow>
   process_list op st = Inr (op\<lparr>retval := - EINVAL\<rparr>, st\<lparr>fired := fired st @ [op\<lparr>retval := - EINVAL\<rparr>]\<rparr>)"
  by (simp add: process_list_def FINISH_OP_def invoke_callback_def)

lemma process_list_unfold:
  assumes npf: "\<not> pg_check_failed st op"
    and sa: "length (clean_db st) div (if pg_count op \<noteq> 0 then pg_count op else 1) = sa"
    and ok1: "alloc_ok st sa"
    and noub: "\<not> (pg_count op \<noteq> 0 \<and> pg_stripe_size op = 0 \<and>
                  (clean_range st op \<noteq> [] \<or> dirty_range st op \<noteq> []))"
  shows "process_list op st =
     (case copy_clean_entries (alloc_ok st) op (clean_range st op) [] sa of
        None \<Rightarrow> Inr (FINISH_OP (op\<lparr>retval := - ENOMEM\<rparr>) st)
      | Some (stable_list, stable_alloc1) \<Rightarrow>
          (case merge_dirty_entries (alloc_ok st) op (length stable_list) (dirty_range st op)
                  (stable_list, stable_alloc1, [], 0) of
             None \<Rightarrow> Inr (FINISH_OP (op\<lparr>retval := - ENOMEM\<rparr>) st)
           | Some (stable_list2, stable_alloc2, unstable_list, unstable_alloc) \<Rightarrow>
               (if length (filter (\<lambda>e. snd e \<noteq> 0) stable_list2) + length unstable_list > stable_alloc2 \<and>
                   \<not> alloc_ok st (length (filter (\<lambda>e. snd e \<noteq> 0) stable_list2) + length unstable_list)
                then Inr (FINISH_OP (op\<lparr>retval := - ENOMEM\<rparr>) st)
                else
                  Inr (FINISH_OP
                         (op\<lparr>version := word_of_nat (length (filter (\<lambda>e. snd e \<noteq> 0) stable_list2)),
                             retval := int (length (filter (\<lambda>e. snd e \<noteq> 0) stable_list2) + length unstable_list),
                             buf := filter (\<lambda>e. snd e \<noteq> 0) stable_list2 @ unstable_list\<rparr>) st))))"
  unfolding process_list_def Let_def
  by (simp only: npf sa ok1 noub if_False if_True not_True_eq_False)

lemma process_list_shape:
  assumes mbs: "0 < MIN_BLOCK_SIZE st" and npf: "\<not> pg_check_failed st op"
  shows "process_list op st =
           Inr (op\<lparr>retval := - ENOMEM\<rparr>, st\<lparr>fired := fired st @ [op\<lparr>retval := - ENOMEM\<rparr>]\<rparr>) \<and>
         \<not> (\<forall>n. alloc_ok st n) \<or>
         (\<exists>S2 a2 b2 a1.
            merge_dirty_entries (alloc_ok st) op
              (length (map (\<lambda>c. (fst c, clean_version (snd c)))
                         (filter (\<lambda>c. pg_matches op (fst c)) (clean_range st op))))
              (dirty_range st op)
              (map (\<lambda>c. (fst c, clean_version (snd c)))
                   (filter (\<lambda>c. pg_matches op (fst c)) (clean_range st op)), a1, [], 0) =
              Some (S2, a2, map fst (filter (unstable_write op) (dirty_range st op)), b2) \<and>
            process_list op st =
              Inr (op\<lparr>version := word_of_nat (length (filter (\<lambda>e. snd e \<noteq> 0) S2)),
                      retval := int (length (filter (\<lambda>e. snd e \<noteq> 0) S2) +
                                     length (map fst (filter (unstable_write op) (dirty_range st op)))),
                      buf := filter (\<lambda>e. snd e \<noteq> 0) S2 @
                             map fst (filter (unstable_write op) (dirty_range st op))\<rparr>,
                   st\<lparr>fired := fired st @
                      [op\<lparr>version := word_of_nat (length (filter (\<lambda>e. snd e \<noteq> 0) S2)),
                          retval := int (length (filter (\<lambda>e. snd e \<noteq> 0) S2) +
                                         length (map fst (filter (unstable_write op) (dirty_range st op)))),
                          buf := filter (\<lambda>e. snd e \<noteq> 0) S2 @
                                 map fst (filter (unstable_write op) (dirty_range st op))\<rparr>]\<rparr>))"
proof -
  define sa where "sa = length (clean_db st) div (if pg_count op \<noteq> 0 then pg_count op else 1)"
  define C where "C = map (\<lambda>c. (fst c, clean_version (snd c)))
                        (filter (\<lambda>c. pg_matches op (fst c)) (clean_range st op))"
  define U where "U = map fst (filter (unstable_write op) (dirty_range st op))"
  have noub: "\<not> (pg_count op \<noteq> 0 \<and> pg_stripe_size op = 0 \<and>
                  (clean_range st op \<noteq> [] \<or> dirty_range st op \<noteq> []))"
    using mbs npf by (auto simp add: pg_check_failed_def)
  show ?thesis
  proof (cases "alloc_ok st sa")
    case False
    then have "process_list op st =
        Inr (op\<lparr>retval := - ENOMEM\<rparr>, st\<lparr>fired := fired st @ [op\<lparr>retval := - ENOMEM\<rparr>]\<rparr>)"
      using npf by (simp add: process_list_def FINISH_OP_def invoke_callback_def sa_def Let_def)
    then show ?thesis using False by blast
  next
    case ok1: True
    show ?thesis
    proof (cases "copy_clean_entries (alloc_ok st) op (clean_range st op) [] sa")
      case None
      then have "process_list op st =
          Inr (op\<lparr>retval := - ENOMEM\<rparr>, st\<lparr>fired := fired st @ [op\<lparr>retval := - ENOMEM\<rparr>]\<rparr>)"
        using process_list_unfold[OF npf sa_def[symmetric] ok1 noub]
        by (simp add: FINISH_OP_def invoke_callback_def)
      moreover have "\<not> (\<forall>n. alloc_ok st n)"
        using None copy_clean_entries_total[of "alloc_ok st" op "clean_range st op" "[]" sa] by blast
      ultimately show ?thesis by blast
    next
      case (Some r)
      then obtain a1 where r: "r = (C, a1)"
        using copy_clean_entries_Some[of "alloc_ok st" op "clean_range st op" "[]" sa r]
        by (auto simp add: C_def)
      show ?thesis
      proof (cases "merge_dirty_entries (alloc_ok st) op (length C) (dirty_range st op) (C, a1, [], 0)")
        case None
        then have "process_list op st =
            Inr (op\<lparr>retval := - ENOMEM\<rparr>, st\<lparr>fired := fired st @ [op\<lparr>retval := - ENOMEM\<rparr>]\<rparr>)"
          using process_list_unfold[OF npf sa_def[symmetric] ok1 noub] Some r
          by (simp add: FINISH_OP_def invoke_callback_def)
        moreover have "\<not> (\<forall>n. alloc_ok st n)"
          using None merge_dirty_entries_total[of "alloc_ok st" op "length C" "dirty_range st op" "(C, a1, [], 0)"]
          by blast
        ultimately show ?thesis by blast
      next
        case m: (Some R)
        then obtain S2 a2 b2 where R: "R = (S2, a2, U, b2)"
          using merge_dirty_entries_Some[of "alloc_ok st" op "length C" "dirty_range st op" C a1 "[]" 0 R]
          by (auto simp add: U_def)
        define S3 where "S3 = filter (\<lambda>e. snd e \<noteq> 0) S2"
        show ?thesis
        proof (cases "length S3 + length U > a2 \<and> \<not> alloc_ok st (length S3 + length U)")
          case True
          then have "process_list op st =
              Inr (op\<lparr>retval := - ENOMEM\<rparr>, st\<lparr>fired := fired st @ [op\<lparr>retval := - ENOMEM\<rparr>]\<rparr>)"
            using process_list_unfold[OF npf sa_def[symmetric] ok1 noub] Some r m R
            by (auto simp add: FINISH_OP_def invoke_callback_def S3_def)
          then show ?thesis using True by blast
        next
          case False
          then have "process_list op st =
              Inr (op\<lparr>version := word_of_nat (length S3), retval := int (length S3 + length U),
                      buf := S3 @ U\<rparr>,
                   st\<lparr>fired := fired st @
                      [op\<lparr>version := word_of_nat (length S3), retval := int (length S3 + length U),
                          buf := S3 @ U\<rparr>]\<rparr>)"
            using process_list_unfold[OF npf sa_def[symmetric] ok1 noub] Some r m R
            by (auto simp add: FINISH_OP_def invoke_callback_def S3_def)
          then show ?thesis using m R unfolding S3_def U_def C_def by blast
        qed
      qed
    qed
  qed
qed

lemma replace_stable_complete:
  assumes "\<forall>i j. s \<le> i \<and> i < j \<and> j < e \<longrightarrow> fst (l ! i) < fst (l ! j)"
    and "s \<le> i" "i < e" "fst (l ! i) = k"
  shows "replace_stable k v s e l = (True, l[i := (k, v)])"
  using assms
proof (induction k v s e l rule: replace_stable.induct)
  case (1 k v s e l)
  have se: "s < e" using "1.prems" by simp
  define pos where "pos = s + (e - s) div 2"
  have bounds: "s \<le> pos" "pos < e" using se by (simp_all add: pos_def)
  have srt: "\<And>a b. s \<le> a \<Longrightarrow> a < b \<Longrightarrow> b < e \<Longrightarrow> fst (l ! a) < fst (l ! b)"
    using "1.prems"(1) by blast
  consider (lt) "k < fst (l ! pos)" | (gt) "\<not> k < fst (l ! pos)" "fst (l ! pos) < k"
    | (eq) "\<not> k < fst (l ! pos)" "\<not> fst (l ! pos) < k" by blast
  then show ?case
  proof cases
    case lt
    have ip: "i < pos"
    proof (rule ccontr)
      assume "\<not> i < pos"
      then have "pos = i \<or> pos < i" by auto
      then show False
      proof
        assume "pos = i" then show False using lt "1.prems"(4) by simp
      next
        assume "pos < i"
        then have "fst (l ! pos) < fst (l ! i)" using srt[of pos i] bounds "1.prems"(3) by simp
        then show False using lt "1.prems"(4) by simp
      qed
    qed
    have eq: "replace_stable k v s e l = replace_stable k v s pos l"
      using se lt by (simp add: replace_stable.simps[of k v s e l] pos_def Let_def)
    have "\<forall>a b. s \<le> a \<and> a < b \<and> b < pos \<longrightarrow> fst (l ! a) < fst (l ! b)"
      using srt bounds by simp
    from "1.IH"(1)[OF se pos_def lt this "1.prems"(2) ip "1.prems"(4)]
    show ?thesis using eq by simp
  next
    case gt
    have ip: "pos + 1 \<le> i"
    proof (rule ccontr)
      assume "\<not> pos + 1 \<le> i"
      then have "pos = i \<or> i < pos" by auto
      then show False
      proof
        assume "pos = i" then show False using gt "1.prems"(4) by simp
      next
        assume "i < pos"
        then have "fst (l ! i) < fst (l ! pos)" using srt[of i pos] bounds "1.prems"(2) by simp
        then show False using gt "1.prems"(4) by simp
      qed
    qed
    have eq: "replace_stable k v s e l = replace_stable k v (pos + 1) e l"
      using se gt by (simp add: replace_stable.simps[of k v s e l] pos_def Let_def)
    have "\<forall>a b. pos + 1 \<le> a \<and> a < b \<and> b < e \<longrightarrow> fst (l ! a) < fst (l ! b)"
      using srt bounds by simp
    from "1.IH"(2)[OF se pos_def gt this ip "1.prems"(3) "1.prems"(4)]
    show ?thesis using eq by simp
  next
    case eq
    then have k: "fst (l ! pos) = k" by simp
    have "pos = i"
    proof (rule ccontr)
      assume "pos \<noteq> i"
      then have "pos < i \<or> i < pos" by auto
      then show False
      proof
        assume "pos < i"
        then have "fst (l ! pos) < fst (l ! i)" using srt[of pos i] bounds "1.prems"(3) by simp
        then show False using k "1.prems"(4) by simp
      next
        assume "i < pos"
        then have "fst (l ! i) < fst (l ! pos)" using srt[of i pos] bounds "1.prems"(2) by simp
        then show False using k "1.prems"(4) by simp
      qed
    qed
    then show ?thesis
      using se eq k by (simp add: replace_stable.simps[of k v s e l] pos_def[symmetric] Let_def)
  qed
qed

lemma replace_stable_keys: "map fst (snd (replace_stable k v s e l)) = map fst l"
proof -
  from replace_stable_result[of k v s e l]
  consider "replace_stable k v s e l = (False, l)"
    | i where "fst (l ! i) = k" "replace_stable k v s e l = (True, l[i := (k, v)])" by blast
  then show ?thesis
  proof cases
    case 1
    then show ?thesis by simp
  next
    case 2
    have "map fst (l[i := (k, v)]) = (map fst l)[i := k]" by (simp add: map_update)
    also have "\<dots> = map fst l"
    proof (cases "i < length l")
      case True
      then show ?thesis using 2(1) by (metis length_map list_update_id nth_map)
    next
      case False
      then show ?thesis by (simp add: list_update_beyond)
    qed
    finally show ?thesis using 2(2) by simp
  qed
qed

lemma replace_stable_found_in_prefix:
  assumes "csc \<le> length l" "sorted_wrt (<) (take csc (map fst l))" "k \<in> set (take csc (map fst l))"
  shows "\<exists>i<csc. fst (l ! i) = k \<and> replace_stable k v 0 csc l = (True, l[i := (k, v)])"
proof -
  from assms(3) obtain i where i: "i < csc" "take csc (map fst l) ! i = k"
    using assms(1) by (auto simp add: in_set_conv_nth)
  then have ki: "fst (l ! i) = k" using assms(1) by simp
  have "\<forall>a b. 0 \<le> a \<and> a < b \<and> b < csc \<longrightarrow> fst (l ! a) < fst (l ! b)"
  proof (intro allI impI)
    fix a b assume ab: "0 \<le> a \<and> a < b \<and> b < csc"
    then have "take csc (map fst l) ! a < take csc (map fst l) ! b"
      using assms(1,2) by (simp add: sorted_wrt_iff_nth_less)
    then show "fst (l ! a) < fst (l ! b)" using ab assms(1) by simp
  qed
  from replace_stable_complete[OF this _ i(1) ki] show ?thesis using i(1) ki by auto
qed

lemma replace_stable_found_in_suffix:
  assumes "csc \<le> length l" "sorted_wrt (<) (drop csc (map fst l))" "k \<in> set (drop csc (map fst l))"
  shows "\<exists>i. csc \<le> i \<and> i < length l \<and> fst (l ! i) = k \<and>
             replace_stable k v csc (length l) l = (True, l[i := (k, v)])"
proof -
  from assms(3) obtain n where n: "n < length l - csc" "drop csc (map fst l) ! n = k"
    by (auto simp add: in_set_conv_nth)
  define i where "i = csc + n"
  have i: "csc \<le> i" "i < length l" using n(1) by (simp_all add: i_def)
  have ki: "fst (l ! i) = k" using n assms(1) by (simp add: i_def)
  have "\<forall>a b. csc \<le> a \<and> a < b \<and> b < length l \<longrightarrow> fst (l ! a) < fst (l ! b)"
  proof (intro allI impI)
    fix a b assume ab: "csc \<le> a \<and> a < b \<and> b < length l"
    have srt: "\<And>x y. x < y \<Longrightarrow> y < length (drop csc (map fst l)) \<Longrightarrow>
                 drop csc (map fst l) ! x < drop csc (map fst l) ! y"
      using assms(2) by (simp only: sorted_wrt_iff_nth_less)
    have "a - csc < b - csc" "b - csc < length (drop csc (map fst l))" using ab by auto
    from srt[OF this]
    have "drop csc (map fst l) ! (a - csc) < drop csc (map fst l) ! (b - csc)" .
    then show "fst (l ! a) < fst (l ! b)" using ab assms(1) by simp
  qed
  from replace_stable_complete[OF this i ki] show ?thesis using i ki by auto
qed

lemma merge_invariant_keys:
  assumes "map fst S' = map fst S" "merge_invariant csc S rest"
  shows "merge_invariant csc S' rest"
proof -
  have "length S' = length S" using assms(1) by (rule map_eq_imp_length_eq)
  then show ?thesis using assms by (simp add: merge_invariant_def)
qed

lemma merge_invariant_tail:
  "merge_invariant csc S (d # rest) \<Longrightarrow> merge_invariant csc S rest"
  by (simp add: merge_invariant_def)

lemma merge_dirty_entry_keys:
  assumes m: "merge_dirty_entry ok op csc d (S, a, U, b) = Some (S', a', U', b')"
  shows "map fst S' = map fst S \<or>
         (S' = S @ [fst d] \<and> stable_write op d \<and>
          \<not> fst (replace_stable (fst (fst d)) (snd (fst d)) 0 csc S) \<and>
          \<not> (length S > 0 \<and> fst (S ! (length S - 1)) = fst (fst d)))"
proof (cases "pg_matches op (fst (fst d))")
  case False
  then show ?thesis using m by (auto simp add: merge_dirty_entry_def)
next
  case pg: True
  show ?thesis
  proof (cases "IS_DELETE (snd d)")
    case True
    obtain f S1 where r1: "replace_stable (fst (fst d)) 0 0 csc S = (f, S1)"
      by (cases "replace_stable (fst (fst d)) 0 0 csc S") auto
    have k1: "map fst S1 = map fst S"
      using replace_stable_keys[of "fst (fst d)" 0 0 csc S] r1 by simp
    have k2: "map fst (snd (replace_stable (fst (fst d)) 0 csc (length S1) S1)) = map fst S"
      using replace_stable_keys[of "fst (fst d)" 0 csc "length S1" S1] k1 by simp
    show ?thesis
    proof (cases f)
      case True
      then have "S' = S1" using m pg \<open>IS_DELETE (snd d)\<close> r1 by (simp add: merge_dirty_entry_def)
      then show ?thesis using k1 by simp
    next
      case False
      then have "S' = snd (replace_stable (fst (fst d)) 0 csc (length S1) S1)"
        using m pg \<open>IS_DELETE (snd d)\<close> r1 by (simp add: merge_dirty_entry_def)
      then show ?thesis using k2 by simp
    qed
  next
    case nd: False
    show ?thesis
    proof (cases "IS_STABLE (snd d)")
      case False
      then have "S' = S" using m pg nd
        by (auto simp add: merge_dirty_entry_def split: option.splits)
      then show ?thesis by simp
    next
      case st: True
      have sw: "stable_write op d" using pg nd st by (simp add: stable_write_def)
      obtain f S1 where r1: "replace_stable (fst (fst d)) (snd (fst d)) 0 csc S = (f, S1)"
        by (cases "replace_stable (fst (fst d)) (snd (fst d)) 0 csc S") auto
      have k1: "map fst S1 = map fst S"
        using replace_stable_keys[of "fst (fst d)" "snd (fst d)" 0 csc S] r1 by simp
      show ?thesis
      proof (cases f)
        case True
        then have "S' = S1" using m pg nd st r1 by (simp add: merge_dirty_entry_def)
        then show ?thesis using k1 by simp
      next
        case nf: False
        then have S1: "S1 = S"
          using replace_stable_result[of "fst (fst d)" "snd (fst d)" 0 csc S] r1 by auto
        show ?thesis
        proof (cases "length S > 0 \<and> fst (S ! (length S - 1)) = fst (fst d)")
          case True
          then have "S' = S[length S - 1 := (fst (S ! (length S - 1)), snd (fst d))]"
            using m pg nd st r1 nf S1 by (simp add: merge_dirty_entry_def)
          then have "map fst S' = (map fst S)[length S - 1 := fst (S ! (length S - 1))]"
            by (simp add: map_update)
          also have "\<dots> = map fst S"
          proof -
            have "length S - 1 < length S" using True by simp
            then have "map fst S ! (length S - 1) = fst (S ! (length S - 1))" by simp
            then show ?thesis by (metis list_update_id)
          qed
          finally show ?thesis by simp
        next
          case False
          then have "push_entry ok (fst d) S a \<noteq> None"
            using m pg nd st r1 nf S1 by (auto simp add: merge_dirty_entry_def split: option.splits)
          then obtain a1 where p: "push_entry ok (fst d) S a = Some (S @ [fst d], a1)"
            using push_entry_Some by fastforce
          have "S' = S @ [fst d]"
            using m pg nd st r1 nf S1 False p by (auto simp add: merge_dirty_entry_def)
          then show ?thesis using sw False r1 nf by simp
        qed
      qed
    qed
  qed
qed

lemma sorted_wrt_max_is_last:
  assumes "sorted_wrt (<) (xs :: 'a::linorder list)" "x \<in> set xs" "\<forall>y\<in>set xs. y \<le> x"
  shows "last xs = x"
proof (cases xs rule: rev_cases)
  case Nil
  then show ?thesis using assms(2) by simp
next
  case (snoc ys y)
  have lt: "\<forall>z\<in>set ys. z < y" using assms(1) snoc by (simp add: sorted_wrt_append)
  have "y \<le> x" using assms(3) snoc by simp
  then have "x \<notin> set ys" using lt by auto
  then show ?thesis using assms(2) snoc by simp
qed

lemma merge_invariant_step:
  assumes inv: "merge_invariant csc S (d # rest)"
    and srt: "\<forall>d'\<in>set rest. fst (fst d) \<le> fst (fst d')"
    and m: "merge_dirty_entry ok op csc d (S, a, U, b) = Some (S', a', U', b')"
  shows "merge_invariant csc S' rest"
proof -
  from merge_dirty_entry_keys[OF m]
  consider (same) "map fst S' = map fst S"
    | (push) "S' = S @ [fst d]"
        "\<not> fst (replace_stable (fst (fst d)) (snd (fst d)) 0 csc S)"
        "\<not> (length S > 0 \<and> fst (S ! (length S - 1)) = fst (fst d))" by blast
  then show ?thesis
  proof cases
    case same
    then show ?thesis using merge_invariant_keys merge_invariant_tail[OF inv] by blast
  next
    case push
    define ks where "ks = map fst S"
    define k where "k = fst (fst d)"
    have csc: "csc \<le> length S" and dist: "distinct ks"
      and s1: "sorted_wrt (<) (take csc ks)" and s2: "sorted_wrt (<) (drop csc ks)"
      and le: "\<forall>x\<in>set (drop csc ks). \<forall>d'\<in>set (d # rest). x \<le> fst (fst d')"
      using inv by (simp_all add: merge_invariant_def ks_def)
    have n1: "k \<notin> set (take csc ks)"
    proof
      assume "k \<in> set (take csc ks)"
      then have "fst (replace_stable k (snd (fst d)) 0 csc S)"
        using replace_stable_found_in_prefix[OF csc, of k "snd (fst d)"] s1 by (auto simp add: ks_def)
      then show False using push(2) by (simp add: k_def)
    qed
    have lek: "\<forall>x\<in>set (drop csc ks). x \<le> k" using le by (simp add: k_def)
    have n2: "k \<notin> set (drop csc ks)"
    proof
      assume in2: "k \<in> set (drop csc ks)"
      then have lt: "csc < length ks" by (cases "csc < length ks") auto
      have "last (drop csc ks) = k" using sorted_wrt_max_is_last[OF s2 in2 lek] .
      then have "last ks = k" using lt by simp
      moreover have "ks \<noteq> []" using lt by auto
      ultimately have "ks ! (length ks - 1) = k" by (simp add: last_conv_nth)
      then have "length S > 0 \<and> fst (S ! (length S - 1)) = k"
        using lt by (auto simp add: ks_def)
      then show False using push(3) by (simp add: k_def)
    qed
    have "set ks = set (take csc ks) \<union> set (drop csc ks)"
      using set_append[of "take csc ks" "drop csc ks"] by (simp only: append_take_drop_id)
    then have nk: "k \<notin> set ks" using n1 n2 by simp
    have keys': "map fst S' = ks @ [k]" using push(1) by (simp add: ks_def k_def)
    have "csc \<le> length S'" using csc push(1) by simp
    moreover have "distinct (map fst S')" using keys' dist nk by simp
    moreover have "sorted_wrt (<) (take csc (map fst S'))"
      using keys' s1 csc by (simp add: ks_def)
    moreover have "sorted_wrt (<) (drop csc (map fst S'))"
    proof -
      have "drop csc (map fst S') = drop csc ks @ [k]" using keys' csc by (simp add: ks_def)
      moreover have "\<forall>x\<in>set (drop csc ks). x < k" using lek n2 by (auto simp add: order_le_less)
      ultimately show ?thesis using s2 by (simp add: sorted_wrt_append)
    qed
    moreover have "\<forall>x\<in>set (drop csc (map fst S')). \<forall>d'\<in>set rest. x \<le> fst (fst d')"
    proof -
      have "drop csc (map fst S') = drop csc ks @ [k]" using keys' csc by (simp add: ks_def)
      then show ?thesis using le srt by (auto simp add: k_def)
    qed
    ultimately show ?thesis by (simp add: merge_invariant_def)
  qed
qed

lemma merge_dirty_entries_append:
  "merge_dirty_entries ok op csc (xs @ ys) A =
     (case merge_dirty_entries ok op csc xs A of
        None \<Rightarrow> None
      | Some A1 \<Rightarrow> merge_dirty_entries ok op csc ys A1)"
  by (induction xs arbitrary: A) (auto split: option.splits)

lemma merge_invariant_entries:
  assumes "merge_invariant csc S (pre @ rest)"
    and "sorted (map (\<lambda>d. fst (fst d)) (pre @ rest))"
    and "merge_dirty_entries ok op csc pre (S, a, U, b) = Some (S', a', U', b')"
  shows "merge_invariant csc S' rest"
  using assms
proof (induction pre arbitrary: S a U b)
  case Nil
  then show ?case by simp
next
  case (Cons d pre)
  from Cons.prems(3) obtain S1 a1 U1 b1 where
    m1: "merge_dirty_entry ok op csc d (S, a, U, b) = Some (S1, a1, U1, b1)"
    by (cases "merge_dirty_entry ok op csc d (S, a, U, b)") auto
  then have m2: "merge_dirty_entries ok op csc pre (S1, a1, U1, b1) = Some (S', a', U', b')"
    using Cons.prems(3) by simp
  have srt: "\<forall>d'\<in>set (pre @ rest). fst (fst d) \<le> fst (fst d')"
    using Cons.prems(2) by auto
  have inv1: "merge_invariant csc S1 (pre @ rest)"
    using merge_invariant_step[OF _ srt m1] Cons.prems(1) by simp
  have "sorted (map (\<lambda>d. fst (fst d)) (pre @ rest))" using Cons.prems(2) by simp
  from Cons.IH[OF inv1 this m2] show ?case .
qed

lemma update_zero:
  assumes "distinct (map fst S)" "i < length S" "fst (S ! i) = k"
  shows "\<forall>e\<in>set (S[i := (k, 0)]). fst e = k \<longrightarrow> snd e = 0"
proof (intro ballI impI)
  fix e assume e: "e \<in> set (S[i := (k, 0)])" and k: "fst e = k"
  then obtain j where j: "j < length S" "e = S[i := (k, 0)] ! j"
    by (auto simp add: in_set_conv_nth)
  show "snd e = 0"
  proof (cases "j = i")
    case True
    then show ?thesis using j assms(2) by simp
  next
    case False
    then have "e = S ! j" using j by simp
    then have "map fst S ! j = map fst S ! i" using k assms(2,3) j(1) by simp
    moreover have "j < length (map fst S)" "i < length (map fst S)" using assms(2) j(1) by simp_all
    ultimately have "j = i" using assms(1) nth_eq_iff_index_eq by blast
    then show ?thesis using False by simp
  qed
qed

lemma delete_zeroes_version:
  assumes inv: "merge_invariant csc S rest"
    and pg: "pg_matches op (fst (fst d))" and del: "IS_DELETE (snd d)"
    and m: "merge_dirty_entry ok op csc d (S, a, U, b) = Some (S', a', U', b')"
  shows "\<forall>e\<in>set S'. fst e = fst (fst d) \<longrightarrow> snd e = 0"
proof -
  define k where "k = fst (fst d)"
  define ks where "ks = map fst S"
  have csc: "csc \<le> length S" and dist: "distinct (map fst S)"
    and s1: "sorted_wrt (<) (take csc (map fst S))" and s2: "sorted_wrt (<) (drop csc (map fst S))"
    using inv by (simp_all add: merge_invariant_def)
  obtain f S1 where r1: "replace_stable k 0 0 csc S = (f, S1)"
    by (cases "replace_stable k 0 0 csc S") auto
  show ?thesis
  proof (cases f)
    case True
    then obtain i where i: "i < csc" "fst (S ! i) = k" "S1 = S[i := (k, 0)]"
      using replace_stable_result[of k 0 0 csc S] r1 by auto
    have "S' = S1" using m pg del r1 True by (simp add: merge_dirty_entry_def k_def)
    then show ?thesis using update_zero[OF dist _ i(2)] i(1,3) csc by (simp add: k_def)
  next
    case False
    then have S1: "S1 = S" using replace_stable_result[of k 0 0 csc S] r1 by auto
    have n1: "k \<notin> set (take csc (map fst S))"
    proof
      assume "k \<in> set (take csc (map fst S))"
      then have "fst (replace_stable k 0 0 csc S)"
        using replace_stable_found_in_prefix[OF csc s1, of k 0] by auto
      then show False using r1 False by simp
    qed
    obtain f2 S2 where r2: "replace_stable k 0 csc (length S) S = (f2, S2)"
      by (cases "replace_stable k 0 csc (length S) S") auto
    have S': "S' = S2" using m pg del r1 False S1 r2 by (simp add: merge_dirty_entry_def k_def)
    show ?thesis
    proof (cases f2)
      case True
      then obtain i where i: "i < length S" "fst (S ! i) = k" "S2 = S[i := (k, 0)]"
        using replace_stable_result[of k 0 csc "length S" S] r2 by auto
      then show ?thesis using update_zero[OF dist i(1,2)] S' by (simp add: k_def)
    next
      case nf: False
      then have S2: "S2 = S" using replace_stable_result[of k 0 csc "length S" S] r2 by auto
      have n2: "k \<notin> set (drop csc (map fst S))"
      proof
        assume "k \<in> set (drop csc (map fst S))"
        then have "fst (replace_stable k 0 csc (length S) S)"
          using replace_stable_found_in_suffix[OF csc s2, of k 0] by auto
        then show False using r2 nf by simp
      qed
      have "set (map fst S) = set (take csc (map fst S)) \<union> set (drop csc (map fst S))"
        using set_append[of "take csc (map fst S)" "drop csc (map fst S)"]
        by (simp only: append_take_drop_id)
      then have "k \<notin> set (map fst S)" using n1 n2 by simp
      then have "\<forall>e\<in>set S. fst e \<noteq> k" by auto
      then show ?thesis using S' S2 by (simp add: k_def)
    qed
  qed
qed

lemma zero_version_step:
  assumes z: "\<forall>e\<in>set S. fst e = k \<longrightarrow> snd e = 0"
    and ns: "\<not> (stable_write op d \<and> fst (fst d) = k)"
    and m: "merge_dirty_entry ok op csc d (S, a, U, b) = Some (S', a', U', b')"
  shows "\<forall>e\<in>set S'. fst e = k \<longrightarrow> snd e = 0"
proof (intro ballI impI)
  fix e assume e: "e \<in> set S'" and k: "fst e = k"
  from merge_dirty_entry_Some[OF m] e
  have "e \<in> set S \<or> snd e = 0 \<or> (e = fst d \<and> stable_write op d)" by auto
  then show "snd e = 0" using z ns k by auto
qed

lemma zero_version_entries:
  assumes "\<forall>e\<in>set S. fst e = k \<longrightarrow> snd e = 0"
    and "\<forall>d\<in>set ds. \<not> (stable_write op d \<and> fst (fst d) = k)"
    and "merge_dirty_entries ok op csc ds (S, a, U, b) = Some (S', a', U', b')"
  shows "\<forall>e\<in>set S'. fst e = k \<longrightarrow> snd e = 0"
  using assms
proof (induction ds arbitrary: S a U b)
  case Nil
  then show ?case by simp
next
  case (Cons d ds)
  from Cons.prems(3) obtain S1 a1 U1 b1 where
    m1: "merge_dirty_entry ok op csc d (S, a, U, b) = Some (S1, a1, U1, b1)"
    by (cases "merge_dirty_entry ok op csc d (S, a, U, b)") auto
  then have m2: "merge_dirty_entries ok op csc ds (S1, a1, U1, b1) = Some (S', a', U', b')"
    using Cons.prems(3) by simp
  have z1: "\<forall>e\<in>set S1. fst e = k \<longrightarrow> snd e = 0"
    using zero_version_step[OF Cons.prems(1) _ m1] Cons.prems(2) by simp
  have "\<forall>d\<in>set ds. \<not> (stable_write op d \<and> fst (fst d) = k)" using Cons.prems(2) by simp
  from Cons.IH[OF z1 this m2] show ?case .
qed

lemma merge_dirty_entry_length:
  assumes "merge_dirty_entry ok op csc d (S, a, U, b) = Some (S', a', U', b')"
  shows "length S' \<le> length S + 1"
proof -
  from merge_dirty_entry_keys[OF assms]
  have "length (map fst S') = length (map fst S) \<or> S' = S @ [fst d]" by metis
  then show ?thesis by auto
qed

lemma merge_dirty_entries_length:
  "merge_dirty_entries ok op csc ds (S, a, U, b) = Some (S', a', U', b') \<Longrightarrow>
   length S' \<le> length S + length ds"
proof (induction ds arbitrary: S a U b)
  case Nil
  then show ?case by simp
next
  case (Cons d ds)
  from Cons.prems obtain S1 a1 U1 b1 where
    m1: "merge_dirty_entry ok op csc d (S, a, U, b) = Some (S1, a1, U1, b1)"
    by (cases "merge_dirty_entry ok op csc d (S, a, U, b)") auto
  then have m2: "merge_dirty_entries ok op csc ds (S1, a1, U1, b1) = Some (S', a', U', b')"
    using Cons.prems by simp
  show ?case using Cons.IH[OF m2] merge_dirty_entry_length[OF m1] by simp
qed

lemma strict_sorted_filter_keys:
  assumes "sorted_wrt (<) (map f xs)"
  shows "sorted_wrt (<) (map f (filter P xs))"
proof -
  have "sorted_wrt (\<lambda>x y. f x < f y) xs" using assms by (simp add: sorted_wrt_map)
  then have "sorted_wrt (\<lambda>x y. f x < f y) (filter P xs)" by (rule sorted_wrt_filter)
  then show ?thesis by (simp add: sorted_wrt_map)
qed

lemma strict_sorted_keys_sorted_oids:
  assumes "sorted_wrt (<) (map fst (ds :: (obj_ver_id \<times> dirty_entry) list))"
  shows "sorted (map (\<lambda>d. fst (fst d)) ds)"
proof -
  have "sorted_wrt (\<lambda>x y. fst x < fst y) ds" using assms by (simp add: sorted_wrt_map)
  then have "sorted_wrt (\<lambda>x y. fst (fst x) \<le> fst (fst y)) ds"
    by (rule sorted_wrt_mono_rel[rotated]) (auto simp add: less_prod_def)
  then show ?thesis by (simp add: sorted_wrt_map)
qed

lemma initial_merge_invariant:
  assumes sc: "sorted_wrt (<) (map fst (clean_db st))"
  shows "merge_invariant
           (length (map (\<lambda>c. (fst c, clean_version (snd c)))
                      (filter (\<lambda>c. pg_matches op (fst c)) (clean_range st op))))
           (map (\<lambda>c. (fst c, clean_version (snd c)))
              (filter (\<lambda>c. pg_matches op (fst c)) (clean_range st op)))
           rest"
proof -
  have s: "sorted (map fst (clean_db st))" using sc by (simp add: strict_sorted_iff)
  have "sorted_wrt (<) (map fst (filter (\<lambda>c. pg_matches op (fst c)) (clean_range st op)))"
    unfolding clean_range_filter[OF s] filter_filter
    by (rule strict_sorted_filter_keys[OF sc])
  moreover have "map fst (map (\<lambda>c. (fst c, clean_version (snd c)))
                   (filter (\<lambda>c. pg_matches op (fst c)) (clean_range st op))) =
                 map fst (filter (\<lambda>c. pg_matches op (fst c)) (clean_range st op))"
    by (simp add: comp_def)
  ultimately show ?thesis by (simp add: merge_invariant_def strict_sorted_iff comp_def)
qed

lemma clean_range_length: "length (clean_range st op) \<le> length (clean_db st)"
proof -
  have "length (takeWhile P (dropWhile Q xs)) \<le> length xs" for P Q and xs :: "(object_id \<times> clean_entry) list"
    using length_takeWhile_le[of P "dropWhile Q xs"] length_dropWhile_le[of Q xs] by simp
  then show ?thesis by (simp add: clean_range_def map_range_def)
qed

lemma dirty_range_length: "length (dirty_range st op) \<le> length (dirty_db st)"
proof -
  have "length (takeWhile P (dropWhile Q xs)) \<le> length xs" for P Q and xs :: "(obj_ver_id \<times> dirty_entry) list"
    using length_takeWhile_le[of P "dropWhile Q xs"] length_dropWhile_le[of Q xs] by simp
  then show ?thesis by (simp add: dirty_range_def map_range_def)
qed












lemma set_version_effect:
  "set_version (fst (fst d)) w (k, version_after k v0 ds) =
     (k, if fst (fst d) = k then w else version_after k v0 ds)"
  by (simp add: set_version_def)











lemmas list_eval_defs =
  process_list_def FINISH_OP_def invoke_callback_def pg_check_failed_def pg_matches_def pg_count_def
  list_pg_def pg_stripe_size_def min_inode_def max_inode_def inode_range_given_def clean_range_def
  dirty_range_def map_range_def merge_dirty_entry_def push_entry_def replace_stable.simps
  IS_DELETE_def IS_STABLE_def inode_def stripe_def UINT64_MAX_def
  example_list_op_def example_op_def example_engine_def bs_op_defs EINVAL_def ENOMEM_def Let_def





text \<open>
  The inode filter with an inverted range: every object passes, and a LIST that asks for
  the inodes from 5 down to 3 gets the objects of the inodes 1 and 3.
\<close>

lemma passes_inode_filter_inverted_range:
  "max_inode op < min_inode op \<Longrightarrow> passes_inode_filter op k"
  by (auto simp add: passes_inode_filter_def inode_range_given_def dest: leD)

lemma process_list_inverted_range_lists_every_inode:
  "min_inode (example_list_op\<lparr>oid := (5, 0), version := 3\<rparr>) = 5 \<and>
   max_inode (example_list_op\<lparr>oid := (5, 0), version := 3\<rparr>) = 3 \<and>
   process_list (example_list_op\<lparr>oid := (5, 0), version := 3\<rparr>) example_list_engine =
     Inr (example_list_op\<lparr>oid := (5, 0), version := 1, retval := 2,
                          buf := [((1, 0), 2), ((3, 0), 1)]\<rparr>,
          example_list_engine
            \<lparr>fired := [example_list_op\<lparr>oid := (5, 0), version := 1, retval := 2,
                                       buf := [((1, 0), 2), ((3, 0), 1)]\<rparr>]\<rparr>)"
  by (simp add: list_eval_defs example_list_engine_def)

text \<open>
  C9 (as amended). With a positive \<open>MIN_BLOCK_SIZE\<close>, the two databases in strictly
  ascending key order and fewer than \<open>2^64\<close> entries: when a LIST succeeds, an object
  \<open>k\<close> that has a delete of version \<open>v\<close> among the dirty entries within the inode range
  and passing the placement-group test, and no stable write (a stable dirty entry that is
  not a delete) of a version above \<open>v\<close>, does not appear in the stable part of the
  result, which is the first \<open>version\<close> entries of the buffer.
\<close>

theorem process_list_omits_deleted_object:
  assumes mbs: "0 < MIN_BLOCK_SIZE st"
    and sc: "sorted_wrt (<) (map fst (clean_db st))"
    and sd: "sorted_wrt (<) (map fst (dirty_db st))"
    and size: "length (clean_db st) + length (dirty_db st) < 2 ^ 64"
    and run: "process_list op st = Inr (op', st')"
    and succ: "0 \<le> retval op'"
    and d_in: "((k, v), dd) \<in> set (dirty_db st)"
    and rng: "passes_inode_filter op k"
    and pg: "pg_matches op k"
    and del: "IS_DELETE dd"
    and later: "\<forall>d\<in>set (dirty_db st). fst (fst d) = k \<and> v < snd (fst d) \<longrightarrow>
                  IS_DELETE (snd d) \<or> \<not> IS_STABLE (snd d)"
  shows "k \<notin> fst ` set (take (unat (version op')) (buf op'))"
proof -
  define C where "C = map (\<lambda>c. (fst c, clean_version (snd c)))
                        (filter (\<lambda>c. pg_matches op (fst c)) (clean_range st op))"
  define U where "U = map fst (filter (unstable_write op) (dirty_range st op))"
  have npf: "\<not> pg_check_failed st op"
  proof
    assume "pg_check_failed st op"
    then have "retval op' = - EINVAL" using process_list_failed_check[of st op] run by auto
    then show False using succ by (simp add: EINVAL_def)
  qed
  from process_list_shape[OF mbs npf]
  consider (nomem) "process_list op st =
           Inr (op\<lparr>retval := - ENOMEM\<rparr>, st\<lparr>fired := fired st @ [op\<lparr>retval := - ENOMEM\<rparr>]\<rparr>)"
    | (success) S2 a2 b2 a1 where
        "merge_dirty_entries (alloc_ok st) op (length C) (dirty_range st op) (C, a1, [], 0) =
           Some (S2, a2, U, b2)"
        "process_list op st =
              Inr (op\<lparr>version := word_of_nat (length (filter (\<lambda>e. snd e \<noteq> 0) S2)),
                      retval := int (length (filter (\<lambda>e. snd e \<noteq> 0) S2) + length U),
                      buf := filter (\<lambda>e. snd e \<noteq> 0) S2 @ U\<rparr>,
                   st\<lparr>fired := fired st @
                      [op\<lparr>version := word_of_nat (length (filter (\<lambda>e. snd e \<noteq> 0) S2)),
                          retval := int (length (filter (\<lambda>e. snd e \<noteq> 0) S2) + length U),
                          buf := filter (\<lambda>e. snd e \<noteq> 0) S2 @ U\<rparr>]\<rparr>)"
    unfolding C_def U_def by blast
  then show ?thesis
  proof cases
    case nomem
    then have "retval op' = - ENOMEM" using run by auto
    then show ?thesis using succ by (simp add: ENOMEM_def)
  next
    case success
    define S3 where "S3 = filter (\<lambda>e. snd e \<noteq> 0) S2"
    have op': "version op' = word_of_nat (length S3)" "buf op' = S3 @ U"
      using success(2) run by (auto simp add: S3_def)
    have sds: "sorted (map fst (dirty_db st))" using sd by (simp add: strict_sorted_iff)
    have dr: "dirty_range st op = filter (\<lambda>d. passes_inode_filter op (fst (fst d))) (dirty_db st)"
      using dirty_range_filter[OF sds] .
    have srt_dr: "sorted_wrt (<) (map fst (dirty_range st op))"
      unfolding dr by (rule strict_sorted_filter_keys[OF sd])
    have "((k, v), dd) \<in> set (dirty_range st op)" using d_in rng by (simp add: dr)
    then obtain pre post where split: "dirty_range st op = pre @ ((k, v), dd) # post"
      by (meson split_list)
    have oids: "sorted (map (\<lambda>d. fst (fst d)) (pre @ ((k, v), dd) # post))"
      using strict_sorted_keys_sorted_oids[OF srt_dr] by (simp only: split)
    have m: "merge_dirty_entries (alloc_ok st) op (length C) (pre @ [((k, v), dd)] @ post) (C, a1, [], 0) =
               Some (S2, a2, U, b2)"
      using success(1) by (simp add: split)
    then obtain A1 where m1: "merge_dirty_entries (alloc_ok st) op (length C) pre (C, a1, [], 0) = Some A1"
      and m1': "merge_dirty_entries (alloc_ok st) op (length C) ([((k, v), dd)] @ post) A1 = Some (S2, a2, U, b2)"
      by (simp only: merge_dirty_entries_append split: option.splits) auto
    obtain A2 where m2: "merge_dirty_entries (alloc_ok st) op (length C) [((k, v), dd)] A1 = Some A2"
      and m3: "merge_dirty_entries (alloc_ok st) op (length C) post A2 = Some (S2, a2, U, b2)"
      using m1' by (simp only: merge_dirty_entries_append split: option.splits) auto
    obtain Sa aa Ua ba where A1: "A1 = (Sa, aa, Ua, ba)" by (cases A1) auto
    obtain Sb ab Ub bb where A2: "A2 = (Sb, ab, Ub, bb)" by (cases A2) auto
    have inv0: "merge_invariant (length C) C (pre @ ((k, v), dd) # post)"
      unfolding C_def by (rule initial_merge_invariant[OF sc])
    have inv1: "merge_invariant (length C) Sa (((k, v), dd) # post)"
      using merge_invariant_entries[OF inv0 oids m1[unfolded A1]] .
    have step: "merge_dirty_entry (alloc_ok st) op (length C) ((k, v), dd) (Sa, aa, Ua, ba) =
                  Some (Sb, ab, Ub, bb)"
      using m2 A1 A2 by (auto split: option.splits)
    have z1: "\<forall>e\<in>set Sb. fst e = k \<longrightarrow> snd e = 0"
      using delete_zeroes_version[OF inv1 _ _ step] pg del by simp
    have after: "\<forall>d\<in>set post. \<not> (stable_write op d \<and> fst (fst d) = k)"
    proof (intro ballI notI)
      fix d assume d: "d \<in> set post" and sw: "stable_write op d \<and> fst (fst d) = k"
      have "(k, v) < fst d"
        using srt_dr d by (simp add: split sorted_wrt_append)
      then have "v < snd (fst d)" using sw by (cases "fst d") (auto simp add: less_prod_def)
      moreover have "d \<in> set (dirty_db st)"
      proof -
        have "d \<in> set (dirty_range st op)" using d by (simp add: split)
        then show ?thesis by (simp add: dr)
      qed
      ultimately have "IS_DELETE (snd d) \<or> \<not> IS_STABLE (snd d)" using later sw by blast
      then show False using sw by (auto simp add: stable_write_def)
    qed
    have z2: "\<forall>e\<in>set S2. fst e = k \<longrightarrow> snd e = 0"
      using zero_version_entries[OF z1 after m3[unfolded A2]] .
    have notin: "k \<notin> fst ` set S3" using z2 by (auto simp add: S3_def)
    have "length S2 \<le> length C + length (dirty_range st op)"
      using merge_dirty_entries_length[OF success(1)] .
    moreover have "length C \<le> length (clean_db st)"
      using clean_range_length[of st op] length_filter_le[of "\<lambda>c. pg_matches op (fst c)" "clean_range st op"]
      unfolding C_def length_map by (rule le_trans[rotated])
    moreover have "length S3 \<le> length S2" by (simp add: S3_def)
    ultimately have "length S3 < 2 ^ 64"
      using dirty_range_length[of st op] size by linarith
    then have "unat (version op') = length S3"
      using op'(1) by (simp add: unsigned_of_nat take_bit_nat_eq_self)
    then have "take (unat (version op')) (buf op') = S3" using op'(2) by simp
    then show ?thesis using notin by simp
  qed
qed

theorem process_list_omits_deleted_object_witness:
  "0 < MIN_BLOCK_SIZE example_list_engine \<and>
   sorted_wrt (<) (map fst (clean_db example_list_engine)) \<and>
   sorted_wrt (<) (map fst (dirty_db example_list_engine)) \<and>
   (((2, 0), 4), \<lparr>kind = DELETE_ENTRY, durab = D_STABLE\<rparr>) \<in> set (dirty_db example_list_engine) \<and>
   IS_DELETE \<lparr>kind = DELETE_ENTRY, durab = D_STABLE\<rparr> \<and>
   process_list example_list_op example_list_engine =
     Inr (example_list_op\<lparr>version := 1, retval := 2, buf := [((1, 0), 2), ((3, 0), 1)]\<rparr>,
          example_list_engine
            \<lparr>fired := [example_list_op\<lparr>version := 1, retval := 2,
                                       buf := [((1, 0), 2), ((3, 0), 1)]\<rparr>]\<rparr>) \<and>
   (2, 0) \<notin> fst ` set (take (unat (version (example_list_op\<lparr>version := 1, retval := 2,
                                                  buf := [((1, 0), 2), ((3, 0), 1)]\<rparr>)))
                          (buf (example_list_op\<lparr>version := 1, retval := 2,
                                                  buf := [((1, 0), 2), ((3, 0), 1)]\<rparr>)))"
  using process_list_omits_deleted_object
          [of example_list_engine example_list_op
              "example_list_op\<lparr>version := 1, retval := 2, buf := [((1, 0), 2), ((3, 0), 1)]\<rparr>"
              "example_list_engine
                 \<lparr>fired := [example_list_op\<lparr>version := 1, retval := 2,
                                            buf := [((1, 0), 2), ((3, 0), 1)]\<rparr>]\<rparr>"
              "(2, 0)" 4 "\<lparr>kind = DELETE_ENTRY, durab = D_STABLE\<rparr>"]
  by (simp add: list_eval_defs example_list_engine_def passes_inode_filter_def)

text \<open>
  C9 as stated fails: object (1,0) has a delete of version 2 among the dirty entries, and a
  stable write of version 3 after it; the LIST returns (1,0) at version 3 in the stable
  part.
\<close>

theorem process_list_recreated_object_counterexample:
  "(((1, 0), 2), \<lparr>kind = DELETE_ENTRY, durab = D_STABLE\<rparr>) \<in> set (dirty_db example_recreated_engine) \<and>
   IS_DELETE \<lparr>kind = DELETE_ENTRY, durab = D_STABLE\<rparr> \<and>
   process_list example_list_op example_recreated_engine =
     Inr (example_list_op\<lparr>version := 1, retval := 1, buf := [((1, 0), 3)]\<rparr>,
          example_recreated_engine
            \<lparr>fired := [example_list_op\<lparr>version := 1, retval := 1, buf := [((1, 0), 3)]\<rparr>]\<rparr>) \<and>
   (1, 0) \<in> fst ` set (take (unat (1 :: u64)) [((1, 0), 3)])"
  by (simp add: list_eval_defs example_recreated_engine_def)

section \<open>One pass of the submit loop\<close>

lemmas trace_defs = write_attempt_def write_failed_def sync_advance_def pass_order_def
  has_writes_after_def pass_invariant_def

lemma finish_step_proj:
  "\<exists>stop op1 keep st1. finish_step hw rs d c cs op st = (stop, hw, op1, keep, cs, st1)"
  by (auto simp add: finish_step_def)

lemma pass_invariant_event:
  assumes "cs0 = [] \<or> (\<exists>op0. cs0 = [(CALL_CHECK_WAIT, op0, 0)] \<and> priv_wait_for op0 = NO_WAIT)"
  shows "pass_invariant hw hw cs0"
    and "c \<noteq> CALL_CHECK_WAIT \<Longrightarrow> c \<noteq> CALL_DEQUEUE_WRITE \<Longrightarrow> c \<noteq> CALL_DEQUEUE_DEL \<Longrightarrow> c \<noteq> CALL_CONTINUE_SYNC \<Longrightarrow>
         pass_invariant hw hw (cs0 @ [(c, op1, r)])"
    and "hw \<noteq> 2 \<Longrightarrow> c = CALL_DEQUEUE_WRITE \<or> c = CALL_DEQUEUE_DEL \<Longrightarrow>
         pass_invariant hw (if r > 0 then 1 else 2) (cs0 @ [(c, op1, r)])"
    and "pass_invariant 0 0 (cs0 @ [(CALL_CONTINUE_SYNC, op1, r)])"
  using assms by (auto simp add: trace_defs)

lemma dispatch_op_ok:
  assumes d: "dispatch_op h hw cs0 op st = Inr (stop, hw1, op1, keep, cs, st1)"
      and c: "cs0 = [] \<or> (\<exists>op0. cs0 = [(CALL_CHECK_WAIT, op0, 0)] \<and> priv_wait_for op0 = NO_WAIT)"
  shows "pass_invariant hw hw1 cs"
proof -
  note ev = pass_invariant_event[OF c]
  consider (rd) "opcode op = BS_OP_READ"
    | (wr) "opcode op \<noteq> BS_OP_READ" "opcode op = BS_OP_WRITE \<or> opcode op = BS_OP_WRITE_STABLE"
    | (del) "opcode op \<noteq> BS_OP_READ" "\<not> (opcode op = BS_OP_WRITE \<or> opcode op = BS_OP_WRITE_STABLE)"
            "opcode op = BS_OP_DELETE"
    | (sy) "opcode op \<noteq> BS_OP_READ" "\<not> (opcode op = BS_OP_WRITE \<or> opcode op = BS_OP_WRITE_STABLE)"
            "opcode op \<noteq> BS_OP_DELETE" "opcode op = BS_OP_SYNC"
    | (stb) "opcode op \<noteq> BS_OP_READ" "\<not> (opcode op = BS_OP_WRITE \<or> opcode op = BS_OP_WRITE_STABLE)"
            "opcode op \<noteq> BS_OP_DELETE" "opcode op \<noteq> BS_OP_SYNC" "opcode op = BS_OP_STABLE"
    | (rb) "opcode op \<noteq> BS_OP_READ" "\<not> (opcode op = BS_OP_WRITE \<or> opcode op = BS_OP_WRITE_STABLE)"
            "opcode op \<noteq> BS_OP_DELETE" "opcode op \<noteq> BS_OP_SYNC" "opcode op \<noteq> BS_OP_STABLE"
            "opcode op = BS_OP_ROLLBACK"
    | (ls) "opcode op \<noteq> BS_OP_READ" "\<not> (opcode op = BS_OP_WRITE \<or> opcode op = BS_OP_WRITE_STABLE)"
            "opcode op \<noteq> BS_OP_DELETE" "opcode op \<noteq> BS_OP_SYNC" "opcode op \<noteq> BS_OP_STABLE"
            "opcode op \<noteq> BS_OP_ROLLBACK" "opcode op = BS_OP_LIST"
    | (other) "opcode op \<noteq> BS_OP_READ" "\<not> (opcode op = BS_OP_WRITE \<or> opcode op = BS_OP_WRITE_STABLE)"
            "opcode op \<noteq> BS_OP_DELETE" "opcode op \<noteq> BS_OP_SYNC" "opcode op \<noteq> BS_OP_STABLE"
            "opcode op \<noteq> BS_OP_ROLLBACK" "opcode op \<noteq> BS_OP_LIST"
    by blast
  then show ?thesis
  proof cases
    case rd
    obtain r op2 st2 where hd: "dequeue_read h op st = (r, op2, st2)" by (cases "dequeue_read h op st") auto
    obtain a b k s where "finish_step hw (ring_space st) (r \<noteq> 0) (\<not> r \<noteq> 0) (cs0 @ [(CALL_DEQUEUE_READ, op2, r)]) op2 st2
        = (a, hw, b, k, cs0 @ [(CALL_DEQUEUE_READ, op2, r)], s)" using finish_step_proj by blast
    then have "hw1 = hw" "cs = cs0 @ [(CALL_DEQUEUE_READ, op2, r)]"
      using d rd hd by (simp_all add: dispatch_op_def Let_def)
    then show ?thesis using ev(2) by simp
  next
    case wr
    show ?thesis
    proof (cases "hw = 2")
      case True
      then have "hw1 = hw" "cs = cs0" using d wr by (simp_all add: dispatch_op_def Let_def)
      then show ?thesis using ev(1) by simp
    next
      case False
      obtain r op2 st2 where hd: "dequeue_write h op st = (r, op2, st2)" by (cases "dequeue_write h op st") auto
      obtain a b k s where "finish_step (if r > 0 then 1 else 2) (ring_space st) (r = 2) (r = 0) (cs0 @ [(CALL_DEQUEUE_WRITE, op2, r)]) op2 st2
          = (a, (if r > 0 then 1 else 2), b, k, cs0 @ [(CALL_DEQUEUE_WRITE, op2, r)], s)" using finish_step_proj by blast
      then have "hw1 = (if r > 0 then 1 else 2)" "cs = cs0 @ [(CALL_DEQUEUE_WRITE, op2, r)]"
        using d wr hd False by (simp_all add: dispatch_op_def Let_def)
      then show ?thesis using ev(3)[OF False] by simp
    qed
  next
    case del
    show ?thesis
    proof (cases "hw = 2")
      case True
      then have "hw1 = hw" "cs = cs0" using d del by (simp_all add: dispatch_op_def Let_def)
      then show ?thesis using ev(1) by simp
    next
      case False
      obtain r op2 st2 where hd: "dequeue_del h op st = (r, op2, st2)" by (cases "dequeue_del h op st") auto
      obtain a b k s where "finish_step (if r > 0 then 1 else 2) (ring_space st) (r = 2) (r = 0) (cs0 @ [(CALL_DEQUEUE_DEL, op2, r)]) op2 st2
          = (a, (if r > 0 then 1 else 2), b, k, cs0 @ [(CALL_DEQUEUE_DEL, op2, r)], s)" using finish_step_proj by blast
      then have "hw1 = (if r > 0 then 1 else 2)" "cs = cs0 @ [(CALL_DEQUEUE_DEL, op2, r)]"
        using d del hd False by (simp_all add: dispatch_op_def Let_def)
      then show ?thesis using ev(3)[OF False] by simp
    qed
  next
    case sy
    show ?thesis
    proof (cases "hw = 0")
      case False
      then have "hw1 = hw" "cs = cs0" using d sy by (simp_all add: dispatch_op_def Let_def)
      then show ?thesis using ev(1) by simp
    next
      case True
      obtain r op2 st2 where hd: "impl_continue_sync h False op st = (r, op2, st2)"
        by (cases "impl_continue_sync h False op st") auto
      obtain a b k s where "finish_step hw (ring_space st) (r = 2) (r = 0) (cs0 @ [(CALL_CONTINUE_SYNC, op2, r)]) op2 st2
          = (a, hw, b, k, cs0 @ [(CALL_CONTINUE_SYNC, op2, r)], s)" using finish_step_proj by blast
      then have "hw1 = hw" "cs = cs0 @ [(CALL_CONTINUE_SYNC, op2, r)]"
        using d sy hd True by (simp_all add: dispatch_op_def Let_def)
      then show ?thesis using ev(4) True by simp
    qed
  next
    case stb
    obtain r op2 st2 where hd: "dequeue_stable h op st = (r, op2, st2)" by (cases "dequeue_stable h op st") auto
    obtain a b k s where "finish_step hw (ring_space st) (r = 2) (r = 0) (cs0 @ [(CALL_DEQUEUE_STABLE, op2, r)]) op2 st2
        = (a, hw, b, k, cs0 @ [(CALL_DEQUEUE_STABLE, op2, r)], s)" using finish_step_proj by blast
    then have "hw1 = hw" "cs = cs0 @ [(CALL_DEQUEUE_STABLE, op2, r)]"
      using d stb hd by (simp_all add: dispatch_op_def Let_def)
    then show ?thesis using ev(2) by simp
  next
    case rb
    obtain r op2 st2 where hd: "dequeue_rollback h op st = (r, op2, st2)" by (cases "dequeue_rollback h op st") auto
    obtain a b k s where "finish_step hw (ring_space st) (r = 2) (r = 0) (cs0 @ [(CALL_DEQUEUE_ROLLBACK, op2, r)]) op2 st2
        = (a, hw, b, k, cs0 @ [(CALL_DEQUEUE_ROLLBACK, op2, r)], s)" using finish_step_proj by blast
    then have "hw1 = hw" "cs = cs0 @ [(CALL_DEQUEUE_ROLLBACK, op2, r)]"
      using d rb hd by (simp_all add: dispatch_op_def Let_def)
    then show ?thesis using ev(2) by simp
  next
    case ls
    from d ls obtain op2 st2 where hd: "process_list op st = Inr (op2, st2)"
      by (cases "process_list op st") (auto simp add: dispatch_op_def Let_def)
    obtain a b k s where "finish_step hw (ring_space st) True False (cs0 @ [(CALL_PROCESS_LIST, op2, 0)]) op2 st2
        = (a, hw, b, k, cs0 @ [(CALL_PROCESS_LIST, op2, 0)], s)" using finish_step_proj by blast
    then have "hw1 = hw" "cs = cs0 @ [(CALL_PROCESS_LIST, op2, 0)]"
      using d ls hd by (simp_all add: dispatch_op_def Let_def)
    then show ?thesis using ev(2) by simp
  next
    case other
    obtain a b k s where "finish_step hw (ring_space st) False False cs0 op st = (a, hw, b, k, cs0, s)"
      using finish_step_proj by blast
    then have "hw1 = hw" "cs = cs0"
      using d other by (simp_all add: dispatch_op_def Let_def)
    then show ?thesis using ev(1) by simp
  qed
qed

lemma check_wait_opcode:
  "check_wait op st = Inr (op1, st1) \<Longrightarrow> opcode op1 = opcode op"
  by (auto simp add: check_wait_def Let_def split: wait_reason.splits if_splits)

lemma submit_pass_invariant:
  assumes "submit_step h hw op st = Inr (stop, hw1, op1, keep, cs, st1)"
  shows "pass_invariant hw hw1 cs"
proof (cases "priv_wait_for op = NO_WAIT")
  case True
  then show ?thesis using assms dispatch_op_ok[of h hw "[]" op st] by (simp add: submit_step_def)
next
  case False
  then obtain op2 st2 where cw: "check_wait op st = Inr (op2, st2)"
    using assms by (cases "check_wait op st") (auto simp add: submit_step_def)
  show ?thesis
  proof (cases "priv_wait_for op2 = NO_WAIT")
    case True
    then have "dispatch_op h hw [(CALL_CHECK_WAIT, op2, 0)] op2 st2 = Inr (stop, hw1, op1, keep, cs, st1)"
      using assms False cw by (simp add: submit_step_def)
    then show ?thesis using dispatch_op_ok True by blast
  next
    case nw: False
    show ?thesis
    proof (cases "priv_wait_for op2 = WAIT_SQE")
      case True
      then have "hw1 = hw" "cs = [(CALL_CHECK_WAIT, op2, 0)]"
        using assms False cw by (auto simp add: submit_step_def)
      then show ?thesis using True by (simp add: trace_defs)
    next
      case ns: False
      then have "hw1 = (if is_write_opcode (opcode op2) then 2 else hw)" "cs = [(CALL_CHECK_WAIT, op2, 0)]"
        using assms False cw nw by (auto simp add: submit_step_def)
      then show ?thesis using ns nw by (simp add: trace_defs)
    qed
  qed
qed

lemma pass_invariant_append:
  assumes a: "pass_invariant hw hw1 cs" and b: "pass_invariant hw1 hw2 tr"
  shows "pass_invariant hw hw2 (cs @ tr)"
proof -
  have s1: "sorted_wrt pass_order cs" and s2: "sorted_wrt pass_order tr"
    using a b by (simp_all add: pass_invariant_def)
  have na1: "hw = 2 \<Longrightarrow> \<forall>e\<in>set cs. \<not> write_attempt e"
    and ns1: "hw \<noteq> 0 \<Longrightarrow> \<forall>e\<in>set cs. \<not> sync_advance e"
    and e1: "hw1 = has_writes_after hw cs"
    using a by (simp_all add: pass_invariant_def)
  have na2: "hw1 = 2 \<Longrightarrow> \<forall>e\<in>set tr. \<not> write_attempt e"
    and ns2: "hw1 \<noteq> 0 \<Longrightarrow> \<forall>e\<in>set tr. \<not> sync_advance e"
    and e2: "hw2 = has_writes_after hw1 tr"
    using b by (simp_all add: pass_invariant_def)
  have f: "\<exists>e\<in>set cs. write_failed e \<Longrightarrow> hw1 = 2"
    using e1 by (simp add: has_writes_after_def)
  have g: "\<exists>e\<in>set cs. write_attempt e \<Longrightarrow> hw1 \<noteq> 0"
    using e1 by (simp add: has_writes_after_def)
  have k2: "hw = 2 \<Longrightarrow> hw1 = 2"
    using e1 na1 by (simp add: has_writes_after_def)
  have k0: "hw \<noteq> 0 \<Longrightarrow> hw1 \<noteq> 0"
    using e1 by (simp add: has_writes_after_def)
  have cross: "\<forall>x\<in>set cs. \<forall>y\<in>set tr. pass_order x y"
  proof (intro ballI)
    fix x y assume x: "x \<in> set cs" and y: "y \<in> set tr"
    have "write_failed x \<Longrightarrow> \<not> write_attempt y" using f na2 x y by blast
    moreover have "write_attempt x \<or> write_failed x \<Longrightarrow> \<not> sync_advance y"
      using f g ns2 x y by (metis zero_neq_numeral)
    ultimately show "pass_order x y" by (simp add: pass_order_def)
  qed
  have srt: "sorted_wrt pass_order (cs @ tr)"
    using s1 s2 cross by (simp add: sorted_wrt_append)
  have na: "hw = 2 \<Longrightarrow> \<forall>e\<in>set (cs @ tr). \<not> write_attempt e"
    using na1 na2 k2 by auto
  have ns: "hw \<noteq> 0 \<Longrightarrow> \<forall>e\<in>set (cs @ tr). \<not> sync_advance e"
    using ns1 ns2 k0 by auto
  have e: "hw2 = has_writes_after hw (cs @ tr)"
  proof (cases "\<exists>e\<in>set tr. write_failed e")
    case True
    then show ?thesis using e2 by (auto simp add: has_writes_after_def)
  next
    case nf: False
    show ?thesis
    proof (cases "\<exists>e\<in>set tr. write_attempt e")
      case True
      then have "hw1 \<noteq> 2" using na2 by blast
      then have "\<not> (\<exists>e\<in>set cs. write_failed e)" using f by blast
      then show ?thesis using e2 nf True by (auto simp add: has_writes_after_def)
    next
      case False
      then have "hw2 = hw1" using e2 nf by (simp add: has_writes_after_def)
      then show ?thesis using e1 nf False by (auto simp add: has_writes_after_def)
    qed
  qed
  show ?thesis using srt na ns e unfolding pass_invariant_def by blast
qed

lemma pass_invariant_nil: "pass_invariant hw hw []"
  by (simp add: pass_invariant_def has_writes_after_def)

lemma submit_ops_ok:
  "submit_ops h todo hw kept tr st = Inr (stop, hw', queue, tr', st') \<Longrightarrow>
   \<exists>tr2. tr' = tr @ tr2 \<and> pass_invariant hw hw' tr2"
proof (induction todo arbitrary: hw kept tr st)
  case Nil
  then show ?case by (simp add: pass_invariant_nil)
next
  case (Cons op rest)
  from Cons.prems obtain stop1 hw1 op1 keep cs st1 where
    step: "submit_step h hw op st = Inr (stop1, hw1, op1, keep, cs, st1)"
    by (auto split: sum.splits)
  have ok1: "pass_invariant hw hw1 cs" using submit_pass_invariant[OF step] .
  show ?case
  proof (cases stop1)
    case True
    then have "tr' = tr @ cs" "hw' = hw1" using Cons.prems step by auto
    then show ?thesis using ok1 by auto
  next
    case False
    then have "submit_ops h rest hw1 (kept @ (if keep then [op1] else [])) (tr @ cs) st1 =
                 Inr (stop, hw', queue, tr', st')"
      using Cons.prems step by simp
    from Cons.IH[OF this] obtain tr2 where "tr' = (tr @ cs) @ tr2" "pass_invariant hw1 hw' tr2" by blast
    then show ?thesis using pass_invariant_append[OF ok1] by auto
  qed
qed

lemma sorted_wrt_nth:
  "sorted_wrt P xs \<Longrightarrow> i < j \<Longrightarrow> j < length xs \<Longrightarrow> P (xs ! i) (xs ! j)"
  by (simp add: sorted_wrt_iff_nth_less)

text \<open>
  C5. In a pass of the submit loop over any queue, with any handlers, that begins with
  \<open>has_writes = 0\<close>: after a call by which a write (WRITE, WRITE_STABLE or DELETE) fails
  to submit, no later call of the pass attempts a write; after a call that attempts a
  write or by which a write fails to submit, no later call of the pass advances a sync.
  \<open>has_writes\<close> ends as 2 when some write failed to submit, as 1 when writes were
  attempted and none failed, and as 0 otherwise.
\<close>

theorem loop_pass_gates_writes_and_syncs:
  assumes "submit_ops h q 0 [] [] st = Inr (stop, hw, queue, tr, st')"
  shows "(\<forall>i j. i < j \<and> j < length tr \<longrightarrow>
            (write_failed (tr ! i) \<longrightarrow> \<not> write_attempt (tr ! j)) \<and>
            (write_attempt (tr ! i) \<or> write_failed (tr ! i) \<longrightarrow> \<not> sync_advance (tr ! j))) \<and>
         hw = (if (\<exists>e\<in>set tr. write_failed e) then 2
               else if (\<exists>e\<in>set tr. write_attempt e) then 1 else 0)"
proof -
  from submit_ops_ok[OF assms] have ok: "pass_invariant 0 hw tr" by simp
  then have srt: "sorted_wrt pass_order tr" and e: "hw = has_writes_after 0 tr"
    by (simp_all add: pass_invariant_def)
  have "\<forall>i j. i < j \<and> j < length tr \<longrightarrow> pass_order (tr ! i) (tr ! j)"
    using sorted_wrt_nth[OF srt] by blast
  then show ?thesis using e unfolding pass_order_def has_writes_after_def by blast
qed

theorem loop_pass_gates_writes_and_syncs_witness:
  "submit_ops example_handlers example_pass_queue 0 [] [] example_engine =
     Inr (False, 2,
          [example_op\<lparr>opcode := BS_OP_WRITE, len := 0\<rparr>, example_op\<lparr>opcode := BS_OP_WRITE\<rparr>,
           example_op\<lparr>opcode := BS_OP_SYNC\<rparr>],
          [(CALL_DEQUEUE_WRITE, example_op\<lparr>opcode := BS_OP_WRITE, len := 0\<rparr>, 0),
           (CALL_DEQUEUE_READ, example_op, 1)],
          example_engine) \<and>
   write_failed (CALL_DEQUEUE_WRITE, example_op\<lparr>opcode := BS_OP_WRITE, len := 0\<rparr>, 0) \<and>
   \<not> write_attempt (CALL_DEQUEUE_READ, example_op, 1) \<and>
   \<not> sync_advance (CALL_DEQUEUE_READ, example_op, 1)"
proof -
  have ev: "submit_ops example_handlers example_pass_queue 0 [] [] example_engine =
     Inr (False, 2,
          [example_op\<lparr>opcode := BS_OP_WRITE, len := 0\<rparr>, example_op\<lparr>opcode := BS_OP_WRITE\<rparr>,
           example_op\<lparr>opcode := BS_OP_SYNC\<rparr>],
          [(CALL_DEQUEUE_WRITE, example_op\<lparr>opcode := BS_OP_WRITE, len := 0\<rparr>, 0),
           (CALL_DEQUEUE_READ, example_op, 1)],
          example_engine)"
    by (simp add: example_pass_queue_def example_handlers_def example_op_def example_engine_def
        submit_step_def dispatch_op_def finish_step_def bs_op_defs Let_def)
  have f: "write_failed (CALL_DEQUEUE_WRITE, example_op\<lparr>opcode := BS_OP_WRITE, len := 0\<rparr>, 0)"
    by (simp add: write_failed_def write_attempt_def)
  have "(write_failed (CALL_DEQUEUE_WRITE, example_op\<lparr>opcode := BS_OP_WRITE, len := 0\<rparr>, 0) \<longrightarrow>
           \<not> write_attempt (CALL_DEQUEUE_READ, example_op, 1)) \<and>
        (write_attempt (CALL_DEQUEUE_WRITE, example_op\<lparr>opcode := BS_OP_WRITE, len := 0\<rparr>, 0) \<or>
         write_failed (CALL_DEQUEUE_WRITE, example_op\<lparr>opcode := BS_OP_WRITE, len := 0\<rparr>, 0) \<longrightarrow>
           \<not> sync_advance (CALL_DEQUEUE_READ, example_op, 1))"
    using conjunct1[OF loop_pass_gates_writes_and_syncs[OF ev], THEN spec, of 0, THEN spec, of 1]
    by simp
  then show ?thesis using ev f by simp
qed

text \<open>
  An operation that the gate passes over stays in the queue as it is, and nothing is
  called for it: a write when \<open>has_writes\<close> is 2, a sync when \<open>has_writes\<close> is not 0.
\<close>

lemma submit_step_skips_gated_operation:
  "(is_write_opcode (opcode op) \<and> priv_wait_for op = NO_WAIT \<longrightarrow>
      submit_step h 2 op st = Inr (False, 2, op, True, [], st)) \<and>
   (opcode op = BS_OP_SYNC \<and> priv_wait_for op = NO_WAIT \<and> hw \<noteq> 0 \<longrightarrow>
      submit_step h hw op st = Inr (False, hw, op, True, [], st))"
  by (simp add: submit_step_def dispatch_op_def is_write_opcode_def bs_op_defs Let_def)

lemma submit_step_skips_gated_operation_witness:
  "submit_step example_handlers 2 (example_op\<lparr>opcode := BS_OP_WRITE\<rparr>) example_engine =
     Inr (False, 2, example_op\<lparr>opcode := BS_OP_WRITE\<rparr>, True, [], example_engine) \<and>
   submit_step example_handlers 1 (example_op\<lparr>opcode := BS_OP_SYNC\<rparr>) example_engine =
     Inr (False, 1, example_op\<lparr>opcode := BS_OP_SYNC\<rparr>, True, [], example_engine)"
  using submit_step_skips_gated_operation [of "example_op\<lparr>opcode := BS_OP_WRITE\<rparr>" example_handlers example_engine 1]
        submit_step_skips_gated_operation [of "example_op\<lparr>opcode := BS_OP_SYNC\<rparr>" example_handlers example_engine 1]
  by (simp add: example_op_def is_write_opcode_def bs_op_defs)

end
